theory Spec2Isabelle
  imports Main
begin

section \<open>The sentence graph\<close>

text \<open>
  The annotated sentence handed over by the parser, as \<^verbatim>\<open>relation.py\<close> reads it:
  \<^verbatim>\<open>sentence.token\<close> is the token list, each token with a \<^verbatim>\<open>word\<close> and a \<^verbatim>\<open>pos\<close>
  string, and \<^verbatim>\<open>sentence.enhancedPlusPlusDependencies.edge\<close> is the edge list, each edge
  with a \<^verbatim>\<open>source\<close>, a \<^verbatim>\<open>target\<close> (positions counted from 1) and a label \<^verbatim>\<open>dep\<close>.
  Positions are Python integers, hence \<^typ>\<open>int\<close>.
\<close>

record token =
  word :: string
  pos :: string

record edge =
  source :: int
  target :: int
  dep :: string

record sentence =
  tokens :: "token list"
  edges :: "edge list"

text \<open>A relation is the tuple \<^verbatim>\<open>(subject index, (predicate indices), object index)\<close>.\<close>

type_synonym relation = "int \<times> int list \<times> int"

datatype error = IndexError

section \<open>Python primitives\<close>

text \<open>\<^verbatim>\<open>s.startswith(p)\<close>.\<close>

definition startswith :: "string \<Rightarrow> string \<Rightarrow> bool" where
  "startswith s p = (take (length p) s = p)"

text \<open>\<^verbatim>\<open>sep.join(ws)\<close>.\<close>

fun join :: "string \<Rightarrow> string list \<Rightarrow> string" where
  "join sep [] = []"
| "join sep [w] = w"
| "join sep (w # v # ws) = w @ sep @ join sep (v # ws)"

text \<open>
  \<^verbatim>\<open>xs[i]\<close> on a sequence: a negative index counts from the end, and an index outside
  \<^verbatim>\<open>-len(xs) .. len(xs) - 1\<close> raises \<^verbatim>\<open>IndexError\<close>.
\<close>

definition getitem :: "'a list \<Rightarrow> int \<Rightarrow> error + 'a" where
  "getitem xs i =
     (if 0 \<le> i \<and> i < int (length xs) then Inr (xs ! nat i)
      else if i < 0 \<and> - int (length xs) \<le> i then Inr (xs ! nat (int (length xs) + i))
      else Inl IndexError)"

text \<open>
  The idiom \<^verbatim>\<open>if k not in d: d[k] = []\<close> followed by \<^verbatim>\<open>d[k].append(v)\<close>, on a dictionary
  that is only ever looked up by key.
\<close>

definition append_at :: "('k \<rightharpoonup> 'v list) \<Rightarrow> 'k \<Rightarrow> 'v \<Rightarrow> ('k \<rightharpoonup> 'v list)" where
  "append_at d k v = d(k \<mapsto> (case d k of None \<Rightarrow> [] | Some vs \<Rightarrow> vs) @ [v])"

text \<open>
  A Python \<^verbatim>\<open>set\<close> under \<^verbatim>\<open>add\<close>, kept as a list without duplicates. Python fixes no
  iteration order for a set, so only the elements of the list that \<^verbatim>\<open>list(...)\<close> returns
  are meaningful, not their order.
\<close>

definition set_add :: "'a list \<Rightarrow> 'a \<Rightarrow> 'a list" where
  "set_add xs x = (if x \<in> set xs then xs else xs @ [x])"

section \<open>The possessive rewriter: \<^verbatim>\<open>_replace_by_of\<close>\<close>

definition of_idx :: "sentence \<Rightarrow> (int \<rightharpoonup> int list)" where
  "of_idx S =
     foldl (\<lambda>d e. if dep e = ''nmod:of'' then append_at d (source e - 1) (target e - 1) else d)
       Map.empty (edges S)"

text \<open>
  \<^verbatim>\<open>real_insts[typ]\<close> after the inner loop: the list \<^verbatim>\<open>[inst]\<close>, or the index entry of
  \<^verbatim>\<open>inst\<close> when it has one.
\<close>

definition real_insts :: "(int \<rightharpoonup> int list) \<Rightarrow> int \<Rightarrow> int list" where
  "real_insts d inst = (case d inst of None \<Rightarrow> [inst] | Some vs \<Rightarrow> vs)"

definition replace_relation :: "(int \<rightharpoonup> int list) \<Rightarrow> relation \<Rightarrow> relation list" where
  "replace_relation d r =
     (case r of (subj, pred, obj) \<Rightarrow>
        concat (map (\<lambda>s. map (\<lambda>ob. (s, pred, ob)) (real_insts d obj)) (real_insts d subj)))"

definition replace_by_of :: "sentence \<Rightarrow> relation list \<Rightarrow> relation list" where
  "replace_by_of S relations =
     foldl (\<lambda>replaced r. foldl set_add replaced (replace_relation (of_idx S) r)) [] relations"

text \<open>
  The rewriter in the words of its description: the 0-based \<^verbatim>\<open>nmod:of\<close> dependents of a
  0-based token, and the tokens an endpoint is replaced by.
\<close>

definition of_dependents :: "sentence \<Rightarrow> int \<Rightarrow> int list" where
  "of_dependents S t =
     map (\<lambda>e. target e - 1) (filter (\<lambda>e. dep e = ''nmod:of'' \<and> source e - 1 = t) (edges S))"

definition substitutes :: "sentence \<Rightarrow> int \<Rightarrow> int set" where
  "substitutes S t = (if of_dependents S t = [] then {t} else set (of_dependents S t))"

section \<open>The verb relation extractor: \<^verbatim>\<open>_extract_by_subj_obj\<close>\<close>

text \<open>
  The \<^verbatim>\<open>if/elif\<close> chain over \<^verbatim>\<open>edge.dep\<close> sets \<^verbatim>\<open>pred\<close> and exactly one of \<^verbatim>\<open>subj\<close> and
  \<^verbatim>\<open>obj\<close>, the other staying \<^verbatim>\<open>None\<close>; \<open>Subj\<close> and \<open>Obj\<close> say which one. \<open>None\<close> is the
  \<^verbatim>\<open>else: continue\<close> branch.
\<close>

datatype inst = Subj int | Obj int

definition classify :: "edge \<Rightarrow> (int \<times> inst) option" where
  "classify e =
     (if dep e = ''nsubj'' then Some (source e, Subj (target e))
      else if dep e = ''acl'' then Some (target e, Subj (source e))
      else if dep e = ''dobj'' then Some (source e, Obj (target e))
      else if dep e = ''acl:relcl'' then Some (target e, Obj (source e))
      else None)"

text \<open>
  \<^verbatim>\<open>pred2insts\<close> is iterated after it is built, so it keeps the insertion order of its
  keys: an association list from \<^verbatim>\<open>pred\<close> to the pair of the lists \<^verbatim>\<open>'subjs'\<close> and
  \<^verbatim>\<open>'objs'\<close>.
\<close>

type_synonym pred2insts = "(int \<times> int list \<times> int list) list"

text \<open>\<^verbatim>\<open>if subj is None: ...['objs'].append(obj) else: ...['subjs'].append(subj)\<close>.\<close>

definition append_inst :: "inst \<Rightarrow> int list \<times> int list \<Rightarrow> int list \<times> int list" where
  "append_inst i insts =
     (case insts of (subjs, objs) \<Rightarrow>
        (case i of Subj s \<Rightarrow> (subjs @ [s], objs) | Obj ob \<Rightarrow> (subjs, objs @ [ob])))"

definition add_inst :: "pred2insts \<Rightarrow> int \<Rightarrow> inst \<Rightarrow> pred2insts" where
  "add_inst d pred i =
     (let d' = (if pred \<in> fst ` set d then d else d @ [(pred, [], [])])
      in map (\<lambda>(p, insts). if p = pred then (p, append_inst i insts) else (p, insts)) d')"

definition pred2insts_of :: "edge list \<Rightarrow> pred2insts" where
  "pred2insts_of es =
     foldl (\<lambda>d e. case classify e of None \<Rightarrow> d | Some (pred, i) \<Rightarrow> add_inst d pred i) [] es"

definition cross_relations :: "pred2insts \<Rightarrow> relation list" where
  "cross_relations d =
     concat (map (\<lambda>(pred, subjs, objs).
       concat (map (\<lambda>subj. map (\<lambda>obj. (subj - 1, [pred - 1], obj - 1)) objs) subjs)) d)"

definition extract_by_subj_obj :: "sentence \<Rightarrow> relation list" where
  "extract_by_subj_obj S = cross_relations (pred2insts_of (edges S))"

text \<open>
  The extractor in the words of its description: the subject candidates and the object
  candidates of a predicate token \<open>p\<close> (positions counted from 1).
\<close>

definition subject_candidates :: "sentence \<Rightarrow> int \<Rightarrow> int set" where
  "subject_candidates S p =
     set (map target (filter (\<lambda>e. dep e = ''nsubj'' \<and> source e = p) (edges S))) \<union>
     set (map source (filter (\<lambda>e. dep e = ''acl'' \<and> target e = p) (edges S)))"

definition object_candidates :: "sentence \<Rightarrow> int \<Rightarrow> int set" where
  "object_candidates S p =
     set (map target (filter (\<lambda>e. dep e = ''dobj'' \<and> source e = p) (edges S))) \<union>
     set (map source (filter (\<lambda>e. dep e = ''acl:relcl'' \<and> target e = p) (edges S)))"

definition verb_labels :: "string list" where
  "verb_labels = [''nsubj'', ''acl'', ''dobj'', ''acl:relcl'']"

section \<open>The prepositional relation extractor: \<^verbatim>\<open>_extract_by_nmod\<close>\<close>

subsection \<open>The index of auxiliary edges\<close>

text \<open>
  \<^verbatim>\<open>dep_idx\<close> is a dictionary with the five keys of \<open>dep_labels\<close>, fixed when it is created;
  each entry is a dictionary from a token to a list of tokens, only ever looked up by
  key. It is modelled as a function from the label, read at those five labels only.
\<close>

definition dep_labels :: "string list" where
  "dep_labels = [''case'', ''mwe'', ''acl'', ''nsubj'', ''conj:and'']"

type_synonym dep_index = "string \<Rightarrow> (int \<rightharpoonup> int list)"

text \<open>
  \<^verbatim>\<open>source, target = edge.source, edge.target\<close>, swapped when the label is \<^verbatim>\<open>acl\<close>.
\<close>

definition idx_source :: "edge \<Rightarrow> int" where
  "idx_source e = (if dep e = ''acl'' then target e else source e)"

definition idx_target :: "edge \<Rightarrow> int" where
  "idx_target e = (if dep e = ''acl'' then source e else target e)"

definition index_edge :: "dep_index \<Rightarrow> edge \<Rightarrow> dep_index" where
  "index_edge di e =
     (if dep e \<notin> set dep_labels then di
      else di(dep e := append_at (di (dep e)) (idx_source e) (idx_target e)))"

definition dep_idx :: "sentence \<Rightarrow> dep_index" where
  "dep_idx S = foldl index_edge (\<lambda>_. Map.empty) (edges S)"

subsection \<open>The loop over the \<^verbatim>\<open>nmod:\<close> edges\<close>

definition exclude :: "string list" where
  "exclude = [''of'', ''for'']"

definition is_noun :: "token \<Rightarrow> bool" where
  "is_noun t = startswith (pos t) ''NN''"

text \<open>\<^verbatim>\<open>[sentence.token[idx - 1].word for idx in word_idc]\<close>, stopping at the first error.\<close>

fun words_at :: "token list \<Rightarrow> int list \<Rightarrow> error + string list" where
  "words_at ts [] = Inr []"
| "words_at ts (idx # idc) =
     (case getitem ts (idx - 1) of
        Inl err \<Rightarrow> Inl err
      | Inr t \<Rightarrow> (case words_at ts idc of
                    Inl err \<Rightarrow> Inl err
                  | Inr ws \<Rightarrow> Inr (word t # ws)))"

text \<open>
  The search \<^verbatim>\<open>for case in dep_idx['case'][edge.target]\<close>: the value of \<^verbatim>\<open>pred\<close> after the
  loop, \<open>None\<close> when no candidate matched.
\<close>

fun find_pred ::
  "token list \<Rightarrow> (int \<rightharpoonup> int list) \<Rightarrow> string \<Rightarrow> int list \<Rightarrow> error + int list option" where
  "find_pred ts mwe nmod [] = Inr None"
| "find_pred ts mwe nmod (c # cs) =
     (case getitem ts (c - 1) of
        Inl err \<Rightarrow> Inl err
      | Inr t \<Rightarrow>
          (case mwe c of
             None \<Rightarrow> if word t = nmod then Inr (Some [c]) else find_pred ts mwe nmod cs
           | Some rest \<Rightarrow>
               (case words_at ts (c # rest) of
                  Inl err \<Rightarrow> Inl err
                | Inr ws \<Rightarrow> if join ''_'' ws = nmod then Inr (Some (c # rest))
                            else find_pred ts mwe nmod cs)))"

text \<open>
  The loop \<^verbatim>\<open>for dep in ['acl', 'nsubj']\<close> for a source that is not a noun; \<^verbatim>\<open>pred[0]\<close> raises
  on an empty list.
\<close>

fun phrase_relations :: "dep_index \<Rightarrow> edge \<Rightarrow> int list \<Rightarrow> string list \<Rightarrow> error + relation list" where
  "phrase_relations di e pred [] = Inr []"
| "phrase_relations di e pred (d # ds) =
     (case di d (source e) of
        None \<Rightarrow> phrase_relations di e pred ds
      | Some srcs \<Rightarrow>
          (case pred of
             [] \<Rightarrow> Inl IndexError
           | p0 # _ \<Rightarrow>
               (let pred' = (if source e + 1 = p0 then source e # pred else pred)
                in Inr (map (\<lambda>src. (src, pred', target e)) srcs))))"

text \<open>The body of the second loop for one edge: the relations it appends, or the error.\<close>

definition nmod_edge :: "sentence \<Rightarrow> dep_index \<Rightarrow> edge \<Rightarrow> error + relation list" where
  "nmod_edge S di e =
     (if \<not> startswith (dep e) ''nmod:'' then Inr []
      else if drop 5 (dep e) \<in> set exclude then Inr []
      else (case getitem (tokens S) (target e - 1) of
              Inl err \<Rightarrow> Inl err
            | Inr tt \<Rightarrow>
               (if \<not> is_noun tt then Inr []
                else (case di ''case'' (target e) of
                        None \<Rightarrow> Inr []
                      | Some cases \<Rightarrow>
                         (case find_pred (tokens S) (di ''mwe'') (drop 5 (dep e)) cases of
                            Inl err \<Rightarrow> Inl err
                          | Inr None \<Rightarrow> Inr []
                          | Inr (Some pred) \<Rightarrow>
                             (case getitem (tokens S) (source e - 1) of
                                Inl err \<Rightarrow> Inl err
                              | Inr st \<Rightarrow>
                                 (if is_noun st then Inr [(source e, pred, target e)]
                                  else phrase_relations di e pred [''acl'', ''nsubj''])))))))"

fun nmod_loop :: "sentence \<Rightarrow> dep_index \<Rightarrow> edge list \<Rightarrow> relation list \<Rightarrow> error + relation list" where
  "nmod_loop S di [] relations = Inr relations"
| "nmod_loop S di (e # es) relations =
     (case nmod_edge S di e of
        Inl err \<Rightarrow> Inl err
      | Inr new \<Rightarrow> nmod_loop S di es (relations @ new))"

text \<open>\<^verbatim>\<open>relations\<close> when the expansion starts.\<close>

definition nmod_relations :: "sentence \<Rightarrow> error + relation list" where
  "nmod_relations S = nmod_loop S (dep_idx S) (edges S) []"

subsection \<open>The expansion over \<^verbatim>\<open>conj:and\<close>\<close>

text \<open>\<^verbatim>\<open>equal_insts[typ]\<close> after the inner loop.\<close>

definition equal_insts :: "dep_index \<Rightarrow> int \<Rightarrow> int list" where
  "equal_insts di inst = inst # (case di ''conj:and'' inst of None \<Rightarrow> [] | Some rest \<Rightarrow> rest)"

definition expand_relation :: "dep_index \<Rightarrow> relation \<Rightarrow> relation list" where
  "expand_relation di r =
     (case r of (subj, pred, obj) \<Rightarrow>
        concat (map (\<lambda>s. map (\<lambda>ob. (s - 1, map (\<lambda>idx. idx - 1) pred, ob - 1))
                              (equal_insts di obj))
                    (equal_insts di subj)))"

definition expand :: "dep_index \<Rightarrow> relation list \<Rightarrow> relation list" where
  "expand di relations =
     foldl (\<lambda>expanded r. foldl set_add expanded (expand_relation di r)) [] relations"

definition extract_by_nmod :: "sentence \<Rightarrow> error + relation list" where
  "extract_by_nmod S =
     (case nmod_relations S of
        Inl err \<Rightarrow> Inl err
      | Inr relations \<Rightarrow> Inr (expand (dep_idx S) relations))"

section \<open>The pipeline: the body of the loop of \<^verbatim>\<open>extract\<close>\<close>

definition extract_sentence :: "sentence \<Rightarrow> error + (string list \<times> relation list)" where
  "extract_sentence S =
     (case extract_by_nmod S of
        Inl err \<Rightarrow> Inl err
      | Inr by_nmod \<Rightarrow>
          Inr (map word (tokens S),
               replace_by_of S (extract_by_subj_obj S @ by_nmod)))"

section \<open>Printing a relation: the command-line loop\<close>

text \<open>
  \<^verbatim>\<open>sep.join([tokens[idx] for idx in relation[1]])\<close> over the words \<^verbatim>\<open>tokens\<close> of the
  sentence result: the string a predicate resolves to. The command line joins with
  \<^verbatim>\<open>'-'\<close>, the extractor compares the label with the \<^verbatim>\<open>'_'\<close> form.
\<close>

fun tokens_at :: "string list \<Rightarrow> int list \<Rightarrow> error + string list" where
  "tokens_at ws [] = Inr []"
| "tokens_at ws (idx # idc) =
     (case getitem ws idx of
        Inl err \<Rightarrow> Inl err
      | Inr w \<Rightarrow> (case tokens_at ws idc of
                    Inl err \<Rightarrow> Inl err
                  | Inr rest \<Rightarrow> Inr (w # rest)))"

definition resolve :: "string \<Rightarrow> sentence \<Rightarrow> int list \<Rightarrow> error + string" where
  "resolve sep S pred =
     (case tokens_at (map word (tokens S)) pred of
        Inl err \<Rightarrow> Inl err
      | Inr ws \<Rightarrow> Inr (join sep ws))"

section \<open>The vocabulary of the description\<close>

text \<open>
  The tokens a \<^verbatim>\<open>case\<close> edge attaches to a token, the tokens an \<^verbatim>\<open>mwe\<close> edge attaches to a
  case token, and the word a case token yields: its own word, or, when it governs
  \<^verbatim>\<open>mwe\<close> edges, the underscore-joined multi-word form.
\<close>

definition case_tokens :: "sentence \<Rightarrow> int \<Rightarrow> int list" where
  "case_tokens S t = map target (filter (\<lambda>e. dep e = ''case'' \<and> source e = t) (edges S))"

definition mwe_tokens :: "sentence \<Rightarrow> int \<Rightarrow> int list" where
  "mwe_tokens S c = map target (filter (\<lambda>e. dep e = ''mwe'' \<and> source e = c) (edges S))"

definition case_word :: "sentence \<Rightarrow> int \<Rightarrow> error + string" where
  "case_word S c =
     (if mwe_tokens S c = []
      then (case getitem (tokens S) (c - 1) of Inl err \<Rightarrow> Inl err | Inr t \<Rightarrow> Inr (word t))
      else (case words_at (tokens S) (c # mwe_tokens S c) of
              Inl err \<Rightarrow> Inl err
            | Inr ws \<Rightarrow> Inr (join ''_'' ws)))"

text \<open>The tokens coordinated with a token: the dependents of its \<^verbatim>\<open>conj:and\<close> edges.\<close>

definition conj_dependents :: "sentence \<Rightarrow> int \<Rightarrow> int set" where
  "conj_dependents S t =
     set (map target (filter (\<lambda>e. dep e = ''conj:and'' \<and> source e = t) (edges S)))"

text \<open>Every edge joins two positions of the token list, counted from 1.\<close>

definition edges_in_range :: "sentence \<Rightarrow> bool" where
  "edges_in_range S =
     list_all (\<lambda>e. 1 \<le> source e \<and> source e \<le> int (length (tokens S)) \<and>
                   1 \<le> target e \<and> target e \<le> int (length (tokens S))) (edges S)"

text \<open>A position of the token list, counted from 1.\<close>

definition position :: "sentence \<Rightarrow> int \<Rightarrow> bool" where
  "position S i = (1 \<le> i \<and> i \<le> int (length (tokens S)))"

text \<open>A 0-based index is a valid position of the token list.\<close>

definition valid_index :: "sentence \<Rightarrow> int \<Rightarrow> bool" where
  "valid_index S i = (0 \<le> i \<and> i < int (length (tokens S)))"

text \<open>
  No token that an \<^verbatim>\<open>nmod:of\<close> edge points to governs an \<^verbatim>\<open>nmod:of\<close> edge itself
  (both read 0-based, as the index of the rewriter is).
\<close>

definition of_governors :: "sentence \<Rightarrow> int list" where
  "of_governors S = map (\<lambda>e. source e - 1) (filter (\<lambda>e. dep e = ''nmod:of'') (edges S))"

definition of_targets :: "sentence \<Rightarrow> int list" where
  "of_targets S = map (\<lambda>e. target e - 1) (filter (\<lambda>e. dep e = ''nmod:of'') (edges S))"

definition no_of_chain :: "sentence \<Rightarrow> bool" where
  "no_of_chain S = (set (of_targets S) \<inter> set (of_governors S) = {})"

section \<open>Example sentences\<close>

definition mk_token :: "string \<Rightarrow> string \<Rightarrow> token" where
  "mk_token w p = \<lparr>word = w, pos = p\<rparr>"

definition mk_edge :: "string \<Rightarrow> int \<Rightarrow> int \<Rightarrow> edge" where
  "mk_edge d s t = \<lparr>source = s, target = t, dep = d\<rparr>"

text \<open>
  ``A group of people chased mice'': the verb extractor yields \<open>(1, [4], 5)\<close>
  (group, chased, mice).
\<close>

definition group_sentence :: sentence where
  "group_sentence =
     \<lparr>tokens = [mk_token ''A'' ''DT'', mk_token ''group'' ''NN'', mk_token ''of'' ''IN'',
                mk_token ''people'' ''NNS'', mk_token ''chased'' ''VBD'', mk_token ''mice'' ''NNS''],
      edges = [mk_edge ''det'' 2 1, mk_edge ''nsubj'' 5 2, mk_edge ''dobj'' 5 6,
               mk_edge ''nmod:of'' 2 4, mk_edge ''case'' 4 3]\<rparr>"

text \<open>
  ``The leader of a group of people chased mice'': two \<^verbatim>\<open>nmod:of\<close> edges in a chain;
  the verb extractor yields \<open>(1, [7], 8)\<close> (leader, chased, mice).
\<close>

definition leader_sentence :: sentence where
  "leader_sentence =
     \<lparr>tokens = [mk_token ''The'' ''DT'', mk_token ''leader'' ''NN'', mk_token ''of'' ''IN'',
                mk_token ''a'' ''DT'', mk_token ''group'' ''NN'', mk_token ''of'' ''IN'',
                mk_token ''people'' ''NNS'', mk_token ''chased'' ''VBD'', mk_token ''mice'' ''NNS''],
      edges = [mk_edge ''nsubj'' 8 2, mk_edge ''dobj'' 8 9,
               mk_edge ''nmod:of'' 2 5, mk_edge ''case'' 5 3,
               mk_edge ''nmod:of'' 5 7, mk_edge ''case'' 7 6]\<rparr>"

text \<open>
  ``The cat chased the mouse and slept.'': \<open>chased\<close> has a subject and an object, \<open>slept\<close>
  has a subject and no object.
\<close>

definition cat_sentence :: sentence where
  "cat_sentence =
     \<lparr>tokens = [mk_token ''The'' ''DT'', mk_token ''cat'' ''NN'', mk_token ''chased'' ''VBD'',
                mk_token ''the'' ''DT'', mk_token ''mouse'' ''NN'', mk_token ''and'' ''CC'',
                mk_token ''slept'' ''VBD'', mk_token ''.'' ''.''],
      edges = [mk_edge ''det'' 2 1, mk_edge ''nsubj'' 3 2, mk_edge ''nsubj'' 7 2,
               mk_edge ''det'' 5 4, mk_edge ''dobj'' 3 5, mk_edge ''cc'' 3 6,
               mk_edge ''conj:and'' 3 7, mk_edge ''punct'' 3 8]\<rparr>"

text \<open>
  ``Cats and dogs chase mice.'' with the three edges \<^verbatim>\<open>conj:and(cats, dogs)\<close>,
  \<^verbatim>\<open>nsubj(chase, cats)\<close>, \<^verbatim>\<open>dobj(chase, mice)\<close>.
\<close>

definition cats_sentence :: sentence where
  "cats_sentence =
     \<lparr>tokens = [mk_token ''Cats'' ''NNS'', mk_token ''and'' ''CC'', mk_token ''dogs'' ''NNS'',
                mk_token ''chase'' ''VBP'', mk_token ''mice'' ''NNS'', mk_token ''.'' ''.''],
      edges = [mk_edge ''conj:and'' 1 3, mk_edge ''nsubj'' 4 1, mk_edge ''dobj'' 4 5]\<rparr>"

text \<open>``She looked at the painting'': a verb followed by its preposition.\<close>

definition looked_sentence :: sentence where
  "looked_sentence =
     \<lparr>tokens = [mk_token ''She'' ''PRP'', mk_token ''looked'' ''VBD'', mk_token ''at'' ''IN'',
                mk_token ''the'' ''DT'', mk_token ''painting'' ''NN''],
      edges = [mk_edge ''nsubj'' 2 1, mk_edge ''case'' 5 3, mk_edge ''det'' 5 4,
               mk_edge ''nmod:at'' 2 5]\<rparr>"

text \<open>``The park in front of the lake'': a multi-word preposition.\<close>

definition park_sentence :: sentence where
  "park_sentence =
     \<lparr>tokens = [mk_token ''The'' ''DT'', mk_token ''park'' ''NN'', mk_token ''in'' ''IN'',
                mk_token ''front'' ''NN'', mk_token ''of'' ''IN'', mk_token ''the'' ''DT'',
                mk_token ''lake'' ''NN''],
      edges = [mk_edge ''det'' 2 1, mk_edge ''nmod:in_front_of'' 2 7, mk_edge ''case'' 7 3,
               mk_edge ''mwe'' 3 4, mk_edge ''mwe'' 3 5, mk_edge ''det'' 7 6]\<rparr>"

text \<open>``The cat and the dog sat on the mat'': coordinated subjects.\<close>

definition sat_sentence :: sentence where
  "sat_sentence =
     \<lparr>tokens = [mk_token ''The'' ''DT'', mk_token ''cat'' ''NN'', mk_token ''and'' ''CC'',
                mk_token ''the'' ''DT'', mk_token ''dog'' ''NN'', mk_token ''sat'' ''VBD'',
                mk_token ''on'' ''IN'', mk_token ''the'' ''DT'', mk_token ''mat'' ''NN''],
      edges = [mk_edge ''nsubj'' 6 2, mk_edge ''cc'' 2 3, mk_edge ''conj:and'' 2 5,
               mk_edge ''nsubj'' 6 5, mk_edge ''case'' 9 7, mk_edge ''nmod:on'' 6 9]\<rparr>"

text \<open>
  ``The cat sat on the mat in front of the door'', with one of the two \<^verbatim>\<open>mwe\<close> edges of
  ``in front of'' missing: the label \<^verbatim>\<open>nmod:in_front_of\<close> cannot be confirmed.
\<close>

definition door_sentence :: sentence where
  "door_sentence =
     \<lparr>tokens = [mk_token ''The'' ''DT'', mk_token ''cat'' ''NN'', mk_token ''sat'' ''VBD'',
                mk_token ''on'' ''IN'', mk_token ''the'' ''DT'', mk_token ''mat'' ''NN'',
                mk_token ''in'' ''IN'', mk_token ''front'' ''NN'', mk_token ''of'' ''IN'',
                mk_token ''the'' ''DT'', mk_token ''door'' ''NN''],
      edges = [mk_edge ''nsubj'' 3 2, mk_edge ''case'' 6 4, mk_edge ''nmod:on'' 3 6,
               mk_edge ''nmod:in_front_of'' 6 11, mk_edge ''case'' 11 7, mk_edge ''mwe'' 7 8]\<rparr>"

text \<open>
  ``She looked at the picture of a park'': an \<^verbatim>\<open>nmod:at\<close> edge and an excluded \<^verbatim>\<open>nmod:of\<close>
  edge.
\<close>

definition picture_sentence :: sentence where
  "picture_sentence =
     \<lparr>tokens = [mk_token ''She'' ''PRP'', mk_token ''looked'' ''VBD'', mk_token ''at'' ''IN'',
                mk_token ''the'' ''DT'', mk_token ''picture'' ''NN'', mk_token ''of'' ''IN'',
                mk_token ''a'' ''DT'', mk_token ''park'' ''NN''],
      edges = [mk_edge ''nsubj'' 2 1, mk_edge ''case'' 5 3, mk_edge ''nmod:at'' 2 5,
               mk_edge ''case'' 8 6, mk_edge ''nmod:of'' 5 8]\<rparr>"

text \<open>
  ``The cat sat on the mat'' with a \<^verbatim>\<open>case\<close> edge whose target, 9, is not a position of the
  six tokens.
\<close>

definition stray_sentence :: sentence where
  "stray_sentence =
     \<lparr>tokens = [mk_token ''The'' ''DT'', mk_token ''cat'' ''NN'', mk_token ''sat'' ''VBD'',
                mk_token ''on'' ''IN'', mk_token ''the'' ''DT'', mk_token ''mat'' ''NN''],
      edges = [mk_edge ''nsubj'' 3 2, mk_edge ''nmod:on'' 3 6, mk_edge ''case'' 6 9]\<rparr>"

lemmas example_defs = mk_token_def mk_edge_def group_sentence_def leader_sentence_def
  cat_sentence_def looked_sentence_def park_sentence_def sat_sentence_def door_sentence_def
  picture_sentence_def cats_sentence_def stray_sentence_def

section \<open>Facts about the primitives\<close>

lemma set_foldl_set_add: "set (foldl set_add acc xs) = set acc \<union> set xs"
  by (induction xs arbitrary: acc) (auto simp: set_add_def)

lemma distinct_foldl_set_add: "distinct acc \<Longrightarrow> distinct (foldl set_add acc xs)"
  by (induction xs arbitrary: acc) (auto simp: set_add_def)

lemma foldl_append_at:
  "foldl (\<lambda>d e. if P e then append_at d (kf e) (vf e) else d) d0 es k =
     (let new = map vf (filter (\<lambda>e. P e \<and> kf e = k) es)
      in case d0 k of None \<Rightarrow> (if new = [] then None else Some new)
                    | Some vs \<Rightarrow> Some (vs @ new))"
  by (induction es arbitrary: d0) (auto simp: append_at_def Let_def split: option.splits)

section \<open>Facts about the rewriter\<close>

lemma of_idx_eq:
  "of_idx S t = (if of_dependents S t = [] then None else Some (of_dependents S t))"
  unfolding of_idx_def of_dependents_def
  by (simp add: foldl_append_at [where P = "\<lambda>e. dep e = ''nmod:of''"] Let_def)

lemma set_real_insts: "set (real_insts (of_idx S) t) = substitutes S t"
  by (simp add: real_insts_def of_idx_eq substitutes_def)

lemma set_replace_relation:
  "set (replace_relation (of_idx S) (s, p, ob)) =
     {(s', p, o') | s' o'. s' \<in> substitutes S s \<and> o' \<in> substitutes S ob}"
  by (auto simp: replace_relation_def set_real_insts)

lemma set_replace_loop:
  "set (foldl (\<lambda>replaced r. foldl set_add replaced (replace_relation (of_idx S) r)) acc rs) =
     set acc \<union> (\<Union>r \<in> set rs. set (replace_relation (of_idx S) r))"
  by (induction rs arbitrary: acc) (auto simp: set_foldl_set_add)

lemma distinct_replace_loop:
  "distinct acc \<Longrightarrow>
   distinct (foldl (\<lambda>replaced r. foldl set_add replaced (replace_relation (of_idx S) r)) acc rs)"
  by (induction rs arbitrary: acc) (auto simp: distinct_foldl_set_add)

lemma set_replace_by_of:
  "set (replace_by_of S R) = (\<Union>r \<in> set R. set (replace_relation (of_idx S) r))"
  by (simp add: replace_by_of_def set_replace_loop)

lemma distinct_replace_by_of: "distinct (replace_by_of S R)"
  by (simp add: replace_by_of_def distinct_replace_loop)

lemma real_insts_nonempty: "real_insts (of_idx S) t \<noteq> []"
  by (simp add: real_insts_def of_idx_eq)

lemma substitutes_nonempty: "substitutes S t \<noteq> {}"
  by (simp add: substitutes_def)

lemma of_dependents_targets: "set (of_dependents S t) \<subseteq> set (of_targets S)"
  by (auto simp: of_dependents_def of_targets_def)

lemma of_dependents_governor: "of_dependents S t \<noteq> [] \<Longrightarrow> t \<in> set (of_governors S)"
  by (auto simp: of_dependents_def of_governors_def filter_empty_conv)

lemma substitutes_fixed:
  assumes "no_of_chain S" and "t' \<in> substitutes S t"
  shows "substitutes S t' = {t'}"
proof (cases "of_dependents S t = []")
  case True
  with assms(2) show ?thesis by (simp add: substitutes_def)
next
  case False
  with assms(2) have "t' \<in> set (of_targets S)"
    using of_dependents_targets [of S t] by (auto simp: substitutes_def)
  with assms(1) have "t' \<notin> set (of_governors S)" by (auto simp: no_of_chain_def)
  then have "of_dependents S t' = []" using of_dependents_governor by blast
  then show ?thesis by (simp add: substitutes_def)
qed

lemma in_replace_by_of:
  "x \<in> set (replace_by_of S R) \<longleftrightarrow>
     (\<exists>s p ob s' o'. x = (s', p, o') \<and> (s, p, ob) \<in> set R \<and>
        s' \<in> substitutes S s \<and> o' \<in> substitutes S ob)"
proof
  assume "x \<in> set (replace_by_of S R)"
  then obtain r where r: "r \<in> set R" "x \<in> set (replace_relation (of_idx S) r)"
    unfolding set_replace_by_of by blast
  obtain s p ob where [simp]: "r = (s, p, ob)" by (cases r)
  from r(2) obtain s' o' where "x = (s', p, o')" "s' \<in> substitutes S s" "o' \<in> substitutes S ob"
    by (auto simp: set_replace_relation)
  with r(1) show "\<exists>s p ob s' o'. x = (s', p, o') \<and> (s, p, ob) \<in> set R \<and>
        s' \<in> substitutes S s \<and> o' \<in> substitutes S ob" by auto
next
  assume "\<exists>s p ob s' o'. x = (s', p, o') \<and> (s, p, ob) \<in> set R \<and>
        s' \<in> substitutes S s \<and> o' \<in> substitutes S ob"
  then obtain s p ob s' o' where x: "x = (s', p, o')" "(s, p, ob) \<in> set R"
    "s' \<in> substitutes S s" "o' \<in> substitutes S ob" by blast
  then have "x \<in> set (replace_relation (of_idx S) (s, p, ob))"
    by (simp add: set_replace_relation)
  with x(2) show "x \<in> set (replace_by_of S R)" unfolding set_replace_by_of by blast
qed

section \<open>The claims about the possessive rewriter\<close>

text \<open>
  Claim C2. For every sentence and every list of input relations, the elements of the
  rewriter's output are exactly the triples \<open>(s', pred, o')\<close> where \<open>(s, pred, o)\<close> is an
  input relation, \<open>s'\<close> ranges over the 0-based \<^verbatim>\<open>nmod:of\<close> dependents of \<open>s\<close> when \<open>s\<close> has
  any and over \<open>{s}\<close> otherwise, and \<open>o'\<close> likewise and independently; the output has no
  duplicates. The substitution is applied once (the dependents of a substituted token
  are not looked up), and the predicate is the one of the input relation.
\<close>

theorem replace_by_of_exact:
  "set (replace_by_of S R) =
     {(s', pred, o') | s pred ob s' o'.
        (s, pred, ob) \<in> set R \<and> s' \<in> substitutes S s \<and> o' \<in> substitutes S ob}
   \<and> distinct (replace_by_of S R)"
proof
  show "set (replace_by_of S R) =
     {(s', pred, o') | s pred ob s' o'.
        (s, pred, ob) \<in> set R \<and> s' \<in> substitutes S s \<and> o' \<in> substitutes S ob}"
    by (rule set_eqI) (simp add: in_replace_by_of)
  show "distinct (replace_by_of S R)" by (rule distinct_replace_by_of)
qed

theorem replace_by_of_exact_witness:
  "set (replace_by_of group_sentence [(1, [4], 5)]) = {(3, [4], 5)}
   \<and> distinct (replace_by_of group_sentence [(1, [4], 5)])"
  using replace_by_of_exact [of group_sentence "[(1, [4], 5)]"]
  by (auto simp: substitutes_def of_dependents_def example_defs)

text \<open>
  Claim C9. The rewriter never discards a relation: the substitution list of an endpoint
  is never empty, so for every input relation \<open>(s, pred, o)\<close> the output has a relation
  with predicate \<open>pred\<close>, and the output is non-empty whenever the input is.
\<close>

theorem replace_by_of_keeps:
  "real_insts (of_idx S) t \<noteq> []
   \<and> ((s, pred, ob) \<in> set R \<longrightarrow> (\<exists>s' o'. (s', pred, o') \<in> set (replace_by_of S R)))
   \<and> (R \<noteq> [] \<longrightarrow> replace_by_of S R \<noteq> [])"
proof (intro conjI impI)
  show "real_insts (of_idx S) t \<noteq> []" by (rule real_insts_nonempty)
  have keep: "\<exists>s' o'. (s', p, o') \<in> set (replace_by_of S R)" if "(s, p, ob) \<in> set R" for s p ob
  proof -
    obtain s' where s': "s' \<in> substitutes S s" using substitutes_nonempty by blast
    obtain o' where o': "o' \<in> substitutes S ob" using substitutes_nonempty by blast
    have "(s', p, o') \<in> set (replace_relation (of_idx S) (s, p, ob))"
      using s' o' by (simp add: set_replace_relation)
    with that show ?thesis unfolding set_replace_by_of by blast
  qed
  show "\<exists>s' o'. (s', pred, o') \<in> set (replace_by_of S R)" if "(s, pred, ob) \<in> set R"
    using keep that by blast
  show "replace_by_of S R \<noteq> []" if "R \<noteq> []"
  proof -
    from that obtain r where "r \<in> set R" by (cases R) auto
    then obtain s p ob where "(s, p, ob) \<in> set R" by (metis prod_cases3)
    from keep [OF this] show ?thesis by auto
  qed
qed

theorem replace_by_of_keeps_witness:
  "(1, [4], 5) \<in> set [(1, [4], 5)] \<and> [(1::int, [4::int], 5::int)] \<noteq> []
   \<and> (\<exists>s' o'. (s', [4], o') \<in> set (replace_by_of group_sentence [(1, [4], 5)]))
   \<and> replace_by_of group_sentence [(1, [4], 5)] \<noteq> []"
  using replace_by_of_keeps [of group_sentence 1 1 "[4]" 5 "[(1, [4], 5)]"]
  by simp


text \<open>
  Claim C7, as stated, fails: the rewriter is a single pass, so on a chain of \<^verbatim>\<open>nmod:of\<close>
  edges a second pass substitutes again. In \<open>leader_sentence\<close> the relation
  (leader, chased, mice) becomes (group, chased, mice), and rewriting that gives
  (people, chased, mice).
\<close>

theorem replace_by_of_twice_counterexample:
  "set (replace_by_of leader_sentence (replace_by_of leader_sentence [(1, [7], 8)]))
     \<noteq> set (replace_by_of leader_sentence [(1, [7], 8)])"
  by (simp add: replace_by_of_def of_idx_def replace_relation_def real_insts_def append_at_def
      set_add_def example_defs)

text \<open>
  Claim C7, amended. In a sentence where no \<^verbatim>\<open>nmod:of\<close> dependent is itself the governor
  of an \<^verbatim>\<open>nmod:of\<close> edge, the rewriter is idempotent on its own output: rewriting the
  rewritten relations gives the same set.
\<close>

theorem replace_by_of_idempotent:
  assumes "no_of_chain S"
  shows "set (replace_by_of S (replace_by_of S R)) = set (replace_by_of S R)"
proof (intro set_eqI iffI)
  fix x assume "x \<in> set (replace_by_of S (replace_by_of S R))"
  then obtain s p ob s' o' where x: "x = (s', p, o')" "(s, p, ob) \<in> set (replace_by_of S R)"
    "s' \<in> substitutes S s" "o' \<in> substitutes S ob"
    unfolding in_replace_by_of [of x S "replace_by_of S R"] by blast
  from x(2) obtain s0 o0 where "s \<in> substitutes S s0" "ob \<in> substitutes S o0"
    unfolding in_replace_by_of [of _ S R] by blast
  then have "substitutes S s = {s}" "substitutes S ob = {ob}"
    using substitutes_fixed [OF assms] by blast+
  with x show "x \<in> set (replace_by_of S R)" by simp
next
  fix x assume a: "x \<in> set (replace_by_of S R)"
  then obtain s p ob s' o' where x: "x = (s', p, o')" "(s, p, ob) \<in> set R"
    "s' \<in> substitutes S s" "o' \<in> substitutes S ob"
    unfolding in_replace_by_of [of x S R] by blast
  have "substitutes S s' = {s'}" "substitutes S o' = {o'}"
    using substitutes_fixed [OF assms] x(3,4) by blast+
  with a x(1) show "x \<in> set (replace_by_of S (replace_by_of S R))"
    unfolding in_replace_by_of [of x S "replace_by_of S R"] by blast
qed

theorem replace_by_of_idempotent_witness:
  "no_of_chain group_sentence
   \<and> set (replace_by_of group_sentence (replace_by_of group_sentence [(1, [4], 5)]))
       = set (replace_by_of group_sentence [(1, [4], 5)])"
proof -
  have h: "no_of_chain group_sentence"
    by (simp add: no_of_chain_def of_targets_def of_governors_def example_defs)
  show ?thesis using h replace_by_of_idempotent [OF h, of "[(1, [4], 5)]"] by simp
qed

section \<open>Facts about the verb relation extractor\<close>

lemma classify_Subj:
  "classify e = Some (p, Subj s) \<longleftrightarrow>
     (dep e = ''nsubj'' \<and> source e = p \<and> target e = s) \<or>
     (dep e = ''acl'' \<and> target e = p \<and> source e = s)"
  by (simp add: classify_def)

lemma classify_Obj:
  "classify e = Some (p, Obj ob) \<longleftrightarrow>
     (dep e = ''dobj'' \<and> source e = p \<and> target e = ob) \<or>
     (dep e = ''acl:relcl'' \<and> target e = p \<and> source e = ob)"
  by (simp add: classify_def)

lemma subject_candidates_classify:
  "subject_candidates S p = {s. \<exists>e \<in> set (edges S). classify e = Some (p, Subj s)}"
  unfolding classify_Subj subject_candidates_def by force

lemma object_candidates_classify:
  "object_candidates S p = {ob. \<exists>e \<in> set (edges S). classify e = Some (p, Obj ob)}"
  unfolding classify_Obj object_candidates_def by force

lemma add_inst_keys: "map fst (add_inst d p i) = (if p \<in> fst ` set d then map fst d else map fst d @ [p])"
  by (auto simp: add_inst_def Let_def case_prod_unfold)

lemma map_of_map_upd:
  "map_of (map (\<lambda>(q, v). if q = p then (q, f v) else (q, v)) d) =
     (case map_of d p of None \<Rightarrow> map_of d | Some v \<Rightarrow> (map_of d)(p \<mapsto> f v))"
  by (induction d) (auto split: option.splits)

lemma map_of_add_inst:
  "map_of (add_inst d p i) =
     (map_of d)(p \<mapsto> append_inst i (case map_of d p of None \<Rightarrow> ([], []) | Some v \<Rightarrow> v))"
proof (cases "p \<in> fst ` set d")
  case True
  then obtain v where "map_of d p = Some v" by (metis domD dom_map_of_conv_image_fst)
  with True show ?thesis by (simp add: add_inst_def map_of_map_upd)
next
  case False
  then have "map_of d p = None" by (simp add: map_of_eq_None_iff)
  with False show ?thesis
    by (auto simp: add_inst_def map_of_map_upd map_add_def fun_eq_iff split: option.splits)
qed


lemma pred2insts_of_snoc:
  "pred2insts_of (es @ [e]) =
     (case classify e of None \<Rightarrow> pred2insts_of es
      | Some (pred, i) \<Rightarrow> add_inst (pred2insts_of es) pred i)"
  by (simp add: pred2insts_of_def split: option.splits)

lemma distinct_pred2insts_of: "distinct (map fst (pred2insts_of es))"
proof (induction es rule: rev_induct)
  case Nil
  show ?case by (simp add: pred2insts_of_def)
next
  case (snoc e es)
  then show ?case
    by (auto simp: pred2insts_of_snoc add_inst_keys split: option.splits)
qed

lemma set_append_inst:
  "set (fst (append_inst i (ss, os))) = set ss \<union> {s. i = Subj s}"
  "set (snd (append_inst i (ss, os))) = set os \<union> {ob. i = Obj ob}"
  by (auto simp: append_inst_def split: inst.splits)

lemma map_of_pred2insts_of:
  "case map_of (pred2insts_of es) p of
     None \<Rightarrow> \<not> (\<exists>e \<in> set es. \<exists>i. classify e = Some (p, i))
   | Some insts \<Rightarrow>
       set (fst insts) = {s. \<exists>e \<in> set es. classify e = Some (p, Subj s)} \<and>
       set (snd insts) = {ob. \<exists>e \<in> set es. classify e = Some (p, Obj ob)}"
proof (induction es rule: rev_induct)
  case Nil
  show ?case by (simp add: pred2insts_of_def)
next
  case (snoc e es)
  show ?case
  proof (cases "classify e")
    case None
    with snoc show ?thesis by (auto simp: pred2insts_of_snoc split: option.splits)
  next
    case (Some a)
    obtain q i where a: "a = (q, i)" by (cases a)
    show ?thesis
    proof (cases "q = p")
      case False
      with snoc Some a show ?thesis
        by (auto simp: pred2insts_of_snoc map_of_add_inst split: option.splits)
    next
      case True
      show ?thesis
      proof (cases "map_of (pred2insts_of es) p")
        case None
        with snoc have "\<not> (\<exists>e \<in> set es. \<exists>i. classify e = Some (p, i))" by simp
        with None Some a True show ?thesis
          by (auto simp: pred2insts_of_snoc map_of_add_inst set_append_inst)
      next
        case (Some insts)
        obtain ss os where insts: "insts = (ss, os)" by (cases insts)
        from snoc Some insts have
          "set ss = {s. \<exists>e \<in> set es. classify e = Some (p, Subj s)}"
          "set os = {ob. \<exists>e \<in> set es. classify e = Some (p, Obj ob)}" by simp_all
        with Some insts \<open>classify e = Some a\<close> a True show ?thesis
          by (auto simp: pred2insts_of_snoc map_of_add_inst set_append_inst)
      qed
    qed
  qed
qed

lemma set_cross_relations:
  "set (cross_relations d) =
     {(s - 1, [p - 1], ob - 1) | s p ob ss os. (p, ss, os) \<in> set d \<and> s \<in> set ss \<and> ob \<in> set os}"
  by (fastforce simp: cross_relations_def)


lemma in_extract_by_subj_obj:
  "r \<in> set (extract_by_subj_obj S) \<longleftrightarrow>
     (\<exists>s p ob. r = (s - 1, [p - 1], ob - 1) \<and>
        s \<in> subject_candidates S p \<and> ob \<in> object_candidates S p)"
proof
  assume "r \<in> set (extract_by_subj_obj S)"
  then obtain s p ob ss os where r: "r = (s - 1, [p - 1], ob - 1)"
    and d: "(p, ss, os) \<in> set (pred2insts_of (edges S))" and s: "s \<in> set ss" and ob: "ob \<in> set os"
    unfolding extract_by_subj_obj_def set_cross_relations by blast
  from d have "map_of (pred2insts_of (edges S)) p = Some (ss, os)"
    by (simp add: distinct_pred2insts_of)
  with map_of_pred2insts_of [of "edges S" p] s ob
  have "s \<in> subject_candidates S p" "ob \<in> object_candidates S p"
    by (simp_all add: subject_candidates_classify object_candidates_classify)
  with r show "\<exists>s p ob. r = (s - 1, [p - 1], ob - 1) \<and>
        s \<in> subject_candidates S p \<and> ob \<in> object_candidates S p" by blast
next
  assume "\<exists>s p ob. r = (s - 1, [p - 1], ob - 1) \<and>
        s \<in> subject_candidates S p \<and> ob \<in> object_candidates S p"
  then obtain s p ob where r: "r = (s - 1, [p - 1], ob - 1)"
    and s: "\<exists>e \<in> set (edges S). classify e = Some (p, Subj s)"
    and ob: "\<exists>e \<in> set (edges S). classify e = Some (p, Obj ob)"
    by (auto simp: subject_candidates_classify object_candidates_classify)
  from s map_of_pred2insts_of [of "edges S" p]
  obtain insts where m: "map_of (pred2insts_of (edges S)) p = Some insts"
    by (cases "map_of (pred2insts_of (edges S)) p") auto
  with map_of_pred2insts_of [of "edges S" p] s ob
  have "s \<in> set (fst insts)" "ob \<in> set (snd insts)" by simp_all
  moreover from m have "(p, fst insts, snd insts) \<in> set (pred2insts_of (edges S))"
    by (simp add: map_of_SomeD)
  ultimately show "r \<in> set (extract_by_subj_obj S)"
    unfolding extract_by_subj_obj_def set_cross_relations using r by blast
qed

lemma classify_other_label: "dep e \<notin> set verb_labels \<Longrightarrow> classify e = None"
  by (simp add: classify_def verb_labels_def)

lemma pred2insts_loop_filter:
  "foldl (\<lambda>d e. case classify e of None \<Rightarrow> d | Some (pred, i) \<Rightarrow> add_inst d pred i) d0
     (filter (\<lambda>e. dep e \<in> set verb_labels) es) =
   foldl (\<lambda>d e. case classify e of None \<Rightarrow> d | Some (pred, i) \<Rightarrow> add_inst d pred i) d0 es"
  by (induction es arbitrary: d0) (simp_all add: classify_other_label)

section \<open>The claim about the verb relation extractor\<close>

text \<open>
  Claim C1. For every sentence, the elements of the verb extractor's output are exactly
  the triples \<open>(s - 1, [p - 1], o - 1)\<close> where, for a predicate token \<open>p\<close>, \<open>s\<close> is a
  subject candidate of \<open>p\<close> (the target of an \<^verbatim>\<open>nsubj\<close> edge with source \<open>p\<close>, or the source
  of an \<^verbatim>\<open>acl\<close> edge with target \<open>p\<close>) and \<open>o\<close> an object candidate of \<open>p\<close> (the target of a
  \<^verbatim>\<open>dobj\<close> edge with source \<open>p\<close>, or the source of an \<^verbatim>\<open>acl:relcl\<close> edge with target \<open>p\<close>).
  Edges with any other label are ignored: removing them leaves the output unchanged.
  A predicate with no subject or no object contributes no relation, and every
  predicate sequence has length 1.
\<close>

theorem extract_by_subj_obj_exact:
  "set (extract_by_subj_obj S) =
     {(s - 1, [p - 1], ob - 1) | s p ob.
        s \<in> subject_candidates S p \<and> ob \<in> object_candidates S p}
   \<and> extract_by_subj_obj (S\<lparr>edges := filter (\<lambda>e. dep e \<in> set verb_labels) (edges S)\<rparr>)
       = extract_by_subj_obj S
   \<and> (subject_candidates S p = {} \<or> object_candidates S p = {} \<longrightarrow>
        (\<forall>s ob. (s, [p - 1], ob) \<notin> set (extract_by_subj_obj S)))
   \<and> (\<forall>r \<in> set (extract_by_subj_obj S). length (fst (snd r)) = 1)"
proof (intro conjI impI ballI allI)
  show "set (extract_by_subj_obj S) =
     {(s - 1, [p - 1], ob - 1) | s p ob.
        s \<in> subject_candidates S p \<and> ob \<in> object_candidates S p}"
    by (rule set_eqI) (simp add: in_extract_by_subj_obj)
  show "extract_by_subj_obj (S\<lparr>edges := filter (\<lambda>e. dep e \<in> set verb_labels) (edges S)\<rparr>)
       = extract_by_subj_obj S"
    by (simp add: extract_by_subj_obj_def pred2insts_of_def pred2insts_loop_filter)
  show "(s, [p - 1], ob) \<notin> set (extract_by_subj_obj S)"
    if "subject_candidates S p = {} \<or> object_candidates S p = {}" for s ob
  proof
    assume "(s, [p - 1], ob) \<in> set (extract_by_subj_obj S)"
    then obtain s' p' ob' where "p' - 1 = p - 1" "s' \<in> subject_candidates S p'"
      "ob' \<in> object_candidates S p'"
      unfolding in_extract_by_subj_obj by auto
    with that show False by auto
  qed
  show "length (fst (snd r)) = 1" if "r \<in> set (extract_by_subj_obj S)" for r
    using that unfolding in_extract_by_subj_obj by auto
qed

theorem extract_by_subj_obj_exact_witness:
  "set (extract_by_subj_obj cat_sentence) = {(1, [2], 4)}
   \<and> subject_candidates cat_sentence 7 = {2}
   \<and> object_candidates cat_sentence 7 = {}
   \<and> (1, [6], 4) \<notin> set (extract_by_subj_obj cat_sentence)
   \<and> (1, [2], 4) \<in> set (extract_by_subj_obj cat_sentence)
   \<and> length (fst (snd (1::int, [2::int], 4::int))) = 1"
  using extract_by_subj_obj_exact [of cat_sentence 7]
  by (auto simp: subject_candidates_def object_candidates_def example_defs)

section \<open>Facts about the index of auxiliary edges\<close>

lemma foldl_index_edge:
  "foldl index_edge di es d k =
     (if d \<in> set dep_labels
      then (let new = map idx_target (filter (\<lambda>e. dep e = d \<and> idx_source e = k) es)
            in case di d k of None \<Rightarrow> (if new = [] then None else Some new)
                            | Some vs \<Rightarrow> Some (vs @ new))
      else di d k)"
proof (induction es arbitrary: di)
  case Nil
  show ?case by (simp split: option.splits)
next
  case (Cons e es)
  show ?case
    unfolding foldl_Cons Cons.IH
    by (auto simp: index_edge_def append_at_def Let_def split: option.splits)
qed

lemma dep_idx_eq:
  "d \<in> set dep_labels \<Longrightarrow>
   dep_idx S d k =
     (let new = map idx_target (filter (\<lambda>e. dep e = d \<and> idx_source e = k) (edges S))
      in if new = [] then None else Some new)"
  by (simp add: dep_idx_def foldl_index_edge)

lemma dep_idx_case:
  "dep_idx S ''case'' t = (if case_tokens S t = [] then None else Some (case_tokens S t))"
proof -
  have "map idx_target (filter (\<lambda>e. dep e = ''case'' \<and> idx_source e = t) (edges S)) = case_tokens S t"
    unfolding case_tokens_def
    by (intro map_cong filter_cong) (auto simp: idx_source_def idx_target_def)
  then show ?thesis
    using dep_idx_eq [of "''case''" S t] by (simp add: dep_labels_def Let_def)
qed

lemma dep_idx_mwe:
  "dep_idx S ''mwe'' c = (if mwe_tokens S c = [] then None else Some (mwe_tokens S c))"
proof -
  have "map idx_target (filter (\<lambda>e. dep e = ''mwe'' \<and> idx_source e = c) (edges S)) = mwe_tokens S c"
    unfolding mwe_tokens_def
    by (intro map_cong filter_cong) (auto simp: idx_source_def idx_target_def)
  then show ?thesis
    using dep_idx_eq [of "''mwe''" S c] by (simp add: dep_labels_def Let_def)
qed

lemma set_equal_insts: "set (equal_insts (dep_idx S) t) = insert t (conj_dependents S t)"
proof -
  have "map idx_target (filter (\<lambda>e. dep e = ''conj:and'' \<and> idx_source e = t) (edges S))
      = map target (filter (\<lambda>e. dep e = ''conj:and'' \<and> source e = t) (edges S))"
    by (intro map_cong filter_cong) (auto simp: idx_source_def idx_target_def)
  then show ?thesis
    using dep_idx_eq [of "''conj:and''" S t]
    by (cases "filter (\<lambda>e. dep e = ''conj:and'' \<and> source e = t) (edges S) = []")
       (simp_all add: dep_labels_def Let_def equal_insts_def conj_dependents_def)
qed

lemma dep_idx_nonempty: "d \<in> set dep_labels \<Longrightarrow> dep_idx S d k = Some vs \<Longrightarrow> vs \<noteq> []"
  by (auto simp: dep_idx_eq Let_def split: if_splits)

lemma edges_in_range_iff:
  "edges_in_range S \<longleftrightarrow> (\<forall>e \<in> set (edges S). position S (source e) \<and> position S (target e))"
  by (auto simp: edges_in_range_def position_def list_all_iff)

lemma dep_idx_in_range:
  assumes "edges_in_range S" "d \<in> set dep_labels" "dep_idx S d k = Some vs" "v \<in> set vs"
  shows "position S v"
proof -
  from assms(2-4) obtain e where "e \<in> set (edges S)" "v = idx_target e"
    by (auto simp: dep_idx_eq Let_def split: if_splits)
  with assms(1) show ?thesis by (auto simp: edges_in_range_iff idx_target_def)
qed

lemma index_edge_other: "dep e \<notin> set dep_labels \<Longrightarrow> index_edge di e = di"
  by (simp add: index_edge_def)

lemma foldl_index_edge_filter:
  "(\<And>e. e \<in> set es \<Longrightarrow> dep e \<in> set dep_labels \<Longrightarrow> P e) \<Longrightarrow>
   foldl index_edge di (filter P es) = foldl index_edge di es"
proof (induction es arbitrary: di)
  case Nil
  show ?case by simp
next
  case (Cons e es)
  then show ?case by (cases "dep e \<in> set dep_labels") (auto simp: index_edge_other)
qed

section \<open>Facts about token lookups\<close>

lemma getitem_position:
  "1 \<le> i \<Longrightarrow> i \<le> int (length xs) \<Longrightarrow> getitem xs (i - 1) = Inr (xs ! nat (i - 1))"
  by (simp add: getitem_def)

lemma getitem_map:
  "getitem (map f xs) i = (case getitem xs i of Inl err \<Rightarrow> Inl err | Inr x \<Rightarrow> Inr (f x))"
  by (auto simp: getitem_def)

lemma tokens_at_words_at:
  "tokens_at (map word ts) (map (\<lambda>idx. idx - 1) idc) = words_at ts idc"
  by (induction idc) (auto simp: getitem_map split: sum.splits)

lemma words_at_length: "words_at ts idc = Inr ws \<Longrightarrow> length ws = length idc"
  by (induction idc arbitrary: ws) (auto split: sum.splits)

lemma words_at_in_range:
  "(\<And>i. i \<in> set idc \<Longrightarrow> 1 \<le> i \<and> i \<le> int (length ts)) \<Longrightarrow> \<exists>ws. words_at ts idc = Inr ws"
  by (induction idc) (auto simp: getitem_position)

section \<open>Facts about the prepositional relation extractor\<close>

lemma find_pred_Some:
  "find_pred ts mwe X cs = Inr (Some p) \<Longrightarrow>
     \<exists>c rest. p = c # rest \<and> c \<in> set cs \<and> (rest = [] \<or> mwe c = Some rest) \<and>
       (\<exists>ws. words_at ts p = Inr ws \<and> join ''_'' ws = X)"
proof (induction cs)
  case Nil
  then show ?case by simp
next
  case (Cons c cs)
  then show ?case
    by (auto split: sum.splits option.splits if_splits)
qed

lemma find_pred_case_word:
  "find_pred (tokens S) (dep_idx S ''mwe'') X (c # cs) =
     (case case_word S c of
        Inl err \<Rightarrow> Inl err
      | Inr w \<Rightarrow> if w = X
                 then Inr (Some (c # mwe_tokens S c))
                 else find_pred (tokens S) (dep_idx S ''mwe'') X cs)"
  by (auto simp: case_word_def dep_idx_mwe split: sum.splits)

lemma find_pred_no_match:
  "(\<And>c. c \<in> set cs \<Longrightarrow> \<exists>w. case_word S c = Inr w \<and> w \<noteq> X) \<Longrightarrow>
   find_pred (tokens S) (dep_idx S ''mwe'') X cs = Inr None"
proof (induction cs)
  case Nil
  show ?case by simp
next
  case (Cons c cs)
  from Cons.prems [of c] obtain w where "case_word S c = Inr w" "w \<noteq> X" by auto
  moreover have "find_pred (tokens S) (dep_idx S ''mwe'') X cs = Inr None"
    using Cons by simp
  ultimately show ?case unfolding find_pred_case_word by simp
qed

lemma mwe_tokens_in_range:
  "edges_in_range S \<Longrightarrow> v \<in> set (mwe_tokens S c) \<Longrightarrow> position S v"
  by (auto simp: mwe_tokens_def edges_in_range_iff)

lemma case_tokens_in_range:
  "edges_in_range S \<Longrightarrow> v \<in> set (case_tokens S t) \<Longrightarrow> position S v"
  by (auto simp: case_tokens_def edges_in_range_iff)

lemma case_word_in_range:
  assumes "edges_in_range S" "position S c"
  shows "\<exists>w. case_word S c = Inr w"
proof -
  have "\<exists>ws. words_at (tokens S) (c # mwe_tokens S c) = Inr ws"
    using assms mwe_tokens_in_range [OF assms(1)]
    by (intro words_at_in_range) (auto simp: position_def)
  moreover have "\<exists>t. getitem (tokens S) (c - 1) = Inr t"
    using assms(2) by (simp add: getitem_position position_def)
  ultimately show ?thesis by (auto simp: case_word_def)
qed

lemma find_pred_in_range:
  "edges_in_range S \<Longrightarrow> (\<And>c. c \<in> set cs \<Longrightarrow> position S c) \<Longrightarrow>
   \<exists>r. find_pred (tokens S) (dep_idx S ''mwe'') X cs = Inr r"
proof (induction cs)
  case Nil
  show ?case by simp
next
  case (Cons c cs)
  from Cons.prems obtain w where "case_word S c = Inr w"
    using case_word_in_range [of S c] by auto
  moreover from Cons obtain r where "find_pred (tokens S) (dep_idx S ''mwe'') X cs = Inr r"
    by auto
  ultimately show ?case unfolding find_pred_case_word by simp
qed

lemma phrase_relations_acl_nsubj:
  "pred \<noteq> [] \<Longrightarrow>
   phrase_relations di e pred [''acl'', ''nsubj''] =
     Inr (map (\<lambda>src. (src, (if source e + 1 = hd pred then source e # pred else pred), target e))
           (case di ''acl'' (source e) of
              Some srcs \<Rightarrow> srcs
            | None \<Rightarrow> (case di ''nsubj'' (source e) of Some srcs \<Rightarrow> srcs | None \<Rightarrow> [])))"
  by (cases pred) (auto split: option.splits)


lemma nmod_edge_tokens:
  assumes "tokens S' = tokens S"
  shows "nmod_edge S' di e = nmod_edge S di e"
  unfolding nmod_edge_def assms ..

lemma nmod_loop_tokens: "tokens S' = tokens S \<Longrightarrow> nmod_loop S' di es acc = nmod_loop S di es acc"
  by (induction es arbitrary: acc) (simp_all add: nmod_edge_tokens [of S' S] cong: sum.case_cong)

lemma nmod_loop_append:
  "nmod_loop S di (es1 @ es2) acc =
     (case nmod_loop S di es1 acc of Inl err \<Rightarrow> Inl err | Inr rs \<Rightarrow> nmod_loop S di es2 rs)"
  by (induction es1 arbitrary: acc) (simp_all split: sum.splits)

lemma nmod_loop_total:
  "(\<And>e. e \<in> set es \<Longrightarrow> \<exists>r. nmod_edge S di e = Inr r) \<Longrightarrow> \<exists>out. nmod_loop S di es acc = Inr out"
proof (induction es arbitrary: acc)
  case Nil
  show ?case by simp
next
  case (Cons e es)
  from Cons.prems [of e] obtain r where "nmod_edge S di e = Inr r" by auto
  moreover have "\<exists>out. nmod_loop S di es (acc @ r) = Inr out" using Cons by simp
  ultimately show ?case by simp
qed

lemma nmod_loop_invariant:
  assumes "nmod_loop S di es acc = Inr out"
    and "\<And>r. r \<in> set acc \<Longrightarrow> P r"
    and "\<And>e new r. e \<in> set es \<Longrightarrow> nmod_edge S di e = Inr new \<Longrightarrow> r \<in> set new \<Longrightarrow> P r"
    and "r \<in> set out"
  shows "P r"
  using assms
proof (induction es arbitrary: acc)
  case Nil
  then show ?case by simp
next
  case (Cons e es)
  from Cons.prems(1) obtain new where new: "nmod_edge S di e = Inr new"
    and rest: "nmod_loop S di es (acc @ new) = Inr out"
    by (auto split: sum.splits)
  show ?case
  proof (rule Cons.IH [OF rest _ _ Cons.prems(4)])
    fix r' assume "r' \<in> set (acc @ new)"
    then have "r' \<in> set acc \<or> r' \<in> set new" by simp
    then show "P r'" using Cons.prems(2) [of r'] Cons.prems(3) [OF _ new, of r'] by auto
  next
    fix e' new' r' assume "e' \<in> set es" "nmod_edge S di e' = Inr new'" "r' \<in> set new'"
    then show "P r'" using Cons.prems(3) [of e' new' r'] by simp
  qed
qed

lemma nmod_edge_total:
  assumes "edges_in_range S" "e \<in> set (edges S)"
  shows "\<exists>r. nmod_edge S (dep_idx S) e = Inr r"
proof -
  from assms have se: "position S (source e)" and te: "position S (target e)"
    by (auto simp: edges_in_range_iff)
  then obtain tt st where tt: "getitem (tokens S) (target e - 1) = Inr tt"
    and st: "getitem (tokens S) (source e - 1) = Inr st"
    by (auto simp: position_def getitem_position)
  show ?thesis
  proof (cases "dep_idx S ''case'' (target e)")
    case None
    with tt show ?thesis by (simp add: nmod_edge_def)
  next
    case (Some cases)
    then have "\<And>c. c \<in> set cases \<Longrightarrow> position S c"
      using dep_idx_in_range [OF assms(1), of "''case''" "target e" cases]
      by (simp add: dep_labels_def)
    with find_pred_in_range [OF assms(1), of cases "drop 5 (dep e)"]
    obtain r where r: "find_pred (tokens S) (dep_idx S ''mwe'') (drop 5 (dep e)) cases = Inr r"
      by blast
    show ?thesis
    proof (cases r)
      case None
      with tt Some r show ?thesis by (simp add: nmod_edge_def)
    next
      case (Some pred)
      with r have "pred \<noteq> []" using find_pred_Some by blast
      with tt st \<open>dep_idx S ''case'' (target e) = Some cases\<close> r Some show ?thesis
        by (simp add: nmod_edge_def phrase_relations_acl_nsubj del: phrase_relations.simps)
    qed
  qed
qed

lemma nmod_relations_total:
  "edges_in_range S \<Longrightarrow> \<exists>rs. nmod_relations S = Inr rs"
  unfolding nmod_relations_def by (intro nmod_loop_total nmod_edge_total)

lemma extract_by_nmod_total:
  "edges_in_range S \<Longrightarrow> \<exists>out. extract_by_nmod S = Inr out"
  using nmod_relations_total [of S] by (auto simp: extract_by_nmod_def)

lemma dep_idx_drop_edge:
  assumes "edges S = es1 @ e # es2" "dep e \<notin> set dep_labels"
  shows "dep_idx (S\<lparr>edges := es1 @ es2\<rparr>) = dep_idx S"
  using assms by (simp add: dep_idx_def index_edge_other)

lemma startswith_nmod_not_indexed: "startswith d ''nmod:'' \<Longrightarrow> d \<notin> set dep_labels"
  by (auto simp: startswith_def dep_labels_def)

lemma nmod_relations_drop_edge:
  assumes "edges S = es1 @ e # es2" "startswith (dep e) ''nmod:''"
    "nmod_edge S (dep_idx S) e = Inr []"
  shows "nmod_relations (S\<lparr>edges := es1 @ es2\<rparr>) = nmod_relations S"
proof -
  have di: "dep_idx (S\<lparr>edges := es1 @ es2\<rparr>) = dep_idx S"
    using assms(1,2) by (intro dep_idx_drop_edge startswith_nmod_not_indexed)
  have "nmod_relations (S\<lparr>edges := es1 @ es2\<rparr>) = nmod_loop S (dep_idx S) (es1 @ es2) []"
    by (simp add: nmod_relations_def di nmod_loop_tokens [of "S\<lparr>edges := es1 @ es2\<rparr>" S])
  also have "\<dots> = nmod_loop S (dep_idx S) (es1 @ e # es2) []"
    using assms(3) by (simp add: nmod_loop_append split: sum.splits)
  finally show ?thesis by (simp add: nmod_relations_def assms(1))
qed

lemma extract_by_nmod_drop_edge:
  assumes "edges S = es1 @ e # es2" "startswith (dep e) ''nmod:''"
    "nmod_edge S (dep_idx S) e = Inr []"
  shows "extract_by_nmod (S\<lparr>edges := es1 @ es2\<rparr>) = extract_by_nmod S"
proof -
  have di: "dep_idx (S\<lparr>edges := es1 @ es2\<rparr>) = dep_idx S"
    using assms(1,2) by (intro dep_idx_drop_edge startswith_nmod_not_indexed)
  show ?thesis
    unfolding extract_by_nmod_def di nmod_relations_drop_edge [OF assms] ..
qed

section \<open>The claims about the prepositional relation extractor\<close>



lemma valid_index_position: "position S i \<Longrightarrow> valid_index S (i - 1)"
  by (auto simp: position_def valid_index_def)

text \<open>
  Claim C6, as stated for every \<^verbatim>\<open>nmod:<X>\<close> edge, fails: the extractor reads the word of
  each case token of the target before it compares it with \<open><X>\<close>, and that lookup is not
  guarded. In \<open>stray_sentence\<close> the only case token of the target of the \<^verbatim>\<open>nmod:on\<close> edge is
  outside the token list, so no case token yields the word \<^verbatim>\<open>on\<close>; yet the edge is not
  skipped: the lookup raises \<^verbatim>\<open>IndexError\<close>, the extractor fails, and without the edge it
  returns the empty list.
\<close>

theorem unconfirmed_preposition_error_counterexample:
  "edges stray_sentence =
       [mk_edge ''nsubj'' 3 2] @ mk_edge ''nmod:on'' 3 6 # [mk_edge ''case'' 6 9]
   \<and> startswith (dep (mk_edge ''nmod:on'' 3 6)) ''nmod:''
   \<and> case_tokens stray_sentence (target (mk_edge ''nmod:on'' 3 6)) = [9]
   \<and> case_word stray_sentence 9 = Inl IndexError
   \<and> case_word stray_sentence 9 \<noteq> Inr (drop 5 (dep (mk_edge ''nmod:on'' 3 6)))
   \<and> nmod_edge stray_sentence (dep_idx stray_sentence) (mk_edge ''nmod:on'' 3 6)
        = Inl IndexError
   \<and> extract_by_nmod stray_sentence = Inl IndexError
   \<and> extract_by_nmod
        (stray_sentence\<lparr>edges := [mk_edge ''nsubj'' 3 2] @ [mk_edge ''case'' 6 9]\<rparr>) = Inr []"
proof -
  have e: "edges stray_sentence =
       [mk_edge ''nsubj'' 3 2] @ mk_edge ''nmod:on'' 3 6 # [mk_edge ''case'' 6 9]"
    by (simp add: example_defs)
  have s: "startswith (dep (mk_edge ''nmod:on'' 3 6)) ''nmod:''"
    by (simp add: startswith_def mk_edge_def)
  have ct: "case_tokens stray_sentence (target (mk_edge ''nmod:on'' 3 6)) = [9]"
    by (simp add: case_tokens_def example_defs)
  have cw: "case_word stray_sentence 9 = Inl IndexError"
    by (simp add: case_word_def mwe_tokens_def getitem_def example_defs)
  have ne: "nmod_edge stray_sentence (dep_idx stray_sentence) (mk_edge ''nmod:on'' 3 6)
        = Inl IndexError"
    by code_simp
  have ex: "extract_by_nmod stray_sentence = Inl IndexError" by code_simp
  have ex': "extract_by_nmod
        (stray_sentence\<lparr>edges := [mk_edge ''nsubj'' 3 2] @ [mk_edge ''case'' 6 9]\<rparr>) = Inr []"
    by code_simp
  from e s ct cw ne ex ex' show ?thesis by simp
qed

text \<open>
  Claim C6, amended. In a sentence whose edges all join positions \<open>1..n\<close> of its \<open>n\<close> tokens,
  take an edge labelled \<^verbatim>\<open>nmod:<X>\<close>. If no case token attached to the target of the edge
  yields the word \<open><X>\<close> (its own word, or its underscore-joined multi-word form when it
  governs \<^verbatim>\<open>mwe\<close> edges), the edge is skipped: it contributes no relation, no error is
  raised, and the extractor returns what it returns for the sentence without that edge.
\<close>

theorem unconfirmed_preposition_skipped:
  assumes "edges_in_range S" and "edges S = es1 @ e # es2" and "startswith (dep e) ''nmod:''"
    and "\<forall>c \<in> set (case_tokens S (target e)). case_word S c \<noteq> Inr (drop 5 (dep e))"
  shows "nmod_edge S (dep_idx S) e = Inr []
    \<and> extract_by_nmod (S\<lparr>edges := es1 @ es2\<rparr>) = extract_by_nmod S
    \<and> (\<exists>out. extract_by_nmod S = Inr out)"
proof -
  from assms(2) have e: "e \<in> set (edges S)" by simp
  with assms(1) have "position S (target e)" by (simp add: edges_in_range_iff)
  then obtain tt where tt: "getitem (tokens S) (target e - 1) = Inr tt"
    by (auto simp: position_def getitem_position)
  have skip: "nmod_edge S (dep_idx S) e = Inr []"
  proof (cases "case_tokens S (target e) = []")
    case True
    with tt show ?thesis by (simp add: nmod_edge_def dep_idx_case)
  next
    case False
    have "\<exists>w. case_word S c = Inr w \<and> w \<noteq> drop 5 (dep e)"
      if "c \<in> set (case_tokens S (target e))" for c
    proof -
      from that assms(1) have "position S c" by (rule case_tokens_in_range [rotated])
      with assms(1) obtain w where "case_word S c = Inr w"
        using case_word_in_range by blast
      with assms(4) that show ?thesis by auto
    qed
    then have "find_pred (tokens S) (dep_idx S ''mwe'') (drop 5 (dep e))
        (case_tokens S (target e)) = Inr None"
      by (rule find_pred_no_match)
    with tt False show ?thesis by (simp add: nmod_edge_def dep_idx_case)
  qed
  moreover have "extract_by_nmod (S\<lparr>edges := es1 @ es2\<rparr>) = extract_by_nmod S"
    using assms(2,3) skip by (rule extract_by_nmod_drop_edge)
  moreover have "\<exists>out. extract_by_nmod S = Inr out"
    using assms(1) by (rule extract_by_nmod_total)
  ultimately show ?thesis by blast
qed

theorem unconfirmed_preposition_skipped_witness:
  "edges_in_range door_sentence
   \<and> edges door_sentence =
       [mk_edge ''nsubj'' 3 2, mk_edge ''case'' 6 4, mk_edge ''nmod:on'' 3 6]
       @ mk_edge ''nmod:in_front_of'' 6 11 # [mk_edge ''case'' 11 7, mk_edge ''mwe'' 7 8]
   \<and> startswith (dep (mk_edge ''nmod:in_front_of'' 6 11)) ''nmod:''
   \<and> case_tokens door_sentence (target (mk_edge ''nmod:in_front_of'' 6 11)) = [7]
   \<and> case_word door_sentence 7 = Inr ''in_front''
   \<and> nmod_edge door_sentence (dep_idx door_sentence) (mk_edge ''nmod:in_front_of'' 6 11) = Inr []
   \<and> extract_by_nmod (door_sentence\<lparr>edges :=
         [mk_edge ''nsubj'' 3 2, mk_edge ''case'' 6 4, mk_edge ''nmod:on'' 3 6]
         @ [mk_edge ''case'' 11 7, mk_edge ''mwe'' 7 8]\<rparr>) = extract_by_nmod door_sentence"
proof -
  let ?e = "mk_edge ''nmod:in_front_of'' 6 11"
  let ?es1 = "[mk_edge ''nsubj'' 3 2, mk_edge ''case'' 6 4, mk_edge ''nmod:on'' 3 6]"
  let ?es2 = "[mk_edge ''case'' 11 7, mk_edge ''mwe'' 7 8]"
  have h1: "edges_in_range door_sentence" by (simp add: edges_in_range_def example_defs)
  have h2: "edges door_sentence = ?es1 @ ?e # ?es2" by (simp add: example_defs)
  have h3: "startswith (dep ?e) ''nmod:''" by (simp add: startswith_def mk_edge_def)
  have ct: "case_tokens door_sentence (target ?e) = [7]"
    by (simp add: case_tokens_def example_defs)
  have cw: "case_word door_sentence 7 = Inr ''in_front''"
    by (simp add: case_word_def mwe_tokens_def getitem_def example_defs)
  have h4: "\<forall>c \<in> set (case_tokens door_sentence (target ?e)).
      case_word door_sentence c \<noteq> Inr (drop 5 (dep ?e))"
    by (simp add: ct cw) (simp add: mk_edge_def)
  from unconfirmed_preposition_skipped [OF h1 h2 h3 h4] h1 h2 h3 ct cw
  show ?thesis by blast
qed

lemma extract_sentence_total:
  "edges_in_range S \<Longrightarrow> \<exists>res. extract_sentence S = Inr res"
  using extract_by_nmod_total [of S] by (auto simp: extract_sentence_def)

text \<open>
  Claim C10. When every edge joins two positions \<open>1..n\<close> of the token list, no token lookup
  of the extraction is out of bounds: the lookups are at \<open>target - 1\<close> and \<open>source - 1\<close> of
  an edge and at \<open>v - 1\<close> for \<open>v\<close> in an entry of the index (the case and \<^verbatim>\<open>mwe\<close> tokens), all
  valid positions, and so the body of the loop over the edges, the prepositional
  extractor and the pipeline return without \<^verbatim>\<open>IndexError\<close>. (The verb extractor reads no
  token.)
\<close>

theorem token_lookups_in_range:
  assumes "edges_in_range S"
  shows "(\<forall>e \<in> set (edges S).
            valid_index S (target e - 1) \<and> valid_index S (source e - 1) \<and>
            (\<exists>new. nmod_edge S (dep_idx S) e = Inr new))
    \<and> (\<forall>d \<in> set dep_labels. \<forall>k vs. dep_idx S d k = Some vs \<longrightarrow>
            (\<forall>v \<in> set vs. valid_index S (v - 1)))
    \<and> (\<exists>relations. nmod_relations S = Inr relations)
    \<and> (\<exists>out. extract_by_nmod S = Inr out)
    \<and> (\<exists>res. extract_sentence S = Inr res)"
proof (intro conjI ballI allI impI)
  fix e assume e: "e \<in> set (edges S)"
  with assms show "valid_index S (target e - 1)" "valid_index S (source e - 1)"
    by (simp_all add: edges_in_range_iff valid_index_position)
  from assms e show "\<exists>new. nmod_edge S (dep_idx S) e = Inr new" by (rule nmod_edge_total)
next
  fix d k vs v
  assume "d \<in> set dep_labels" "dep_idx S d k = Some vs" "v \<in> set vs"
  with assms have "position S v" by (rule dep_idx_in_range)
  then show "valid_index S (v - 1)" by (rule valid_index_position)
next
  from assms show "\<exists>relations. nmod_relations S = Inr relations" by (rule nmod_relations_total)
  from assms show "\<exists>out. extract_by_nmod S = Inr out" by (rule extract_by_nmod_total)
  from assms show "\<exists>res. extract_sentence S = Inr res" by (rule extract_sentence_total)
qed

theorem token_lookups_in_range_witness:
  "edges_in_range sat_sentence
   \<and> nmod_relations sat_sentence = Inr [(2, [6, 7], 9), (5, [6, 7], 9)]
   \<and> (\<exists>res. extract_sentence sat_sentence = Inr res)"
proof -
  have h: "edges_in_range sat_sentence" by (simp add: edges_in_range_def example_defs)
  have "nmod_relations sat_sentence = Inr [(2, [6, 7], 9), (5, [6, 7], 9)]"
    by code_simp
  with h token_lookups_in_range [OF h] show ?thesis by blast
qed

lemma set_expand_loop:
  "set (foldl (\<lambda>expanded r. foldl set_add expanded (expand_relation di r)) acc rs) =
     set acc \<union> (\<Union>r \<in> set rs. set (expand_relation di r))"
  by (induction rs arbitrary: acc) (auto simp: set_foldl_set_add)

lemma distinct_expand_loop:
  "distinct acc \<Longrightarrow>
   distinct (foldl (\<lambda>expanded r. foldl set_add expanded (expand_relation di r)) acc rs)"
  by (induction rs arbitrary: acc) (auto simp: distinct_foldl_set_add)

lemma set_expand: "set (expand di rs) = (\<Union>r \<in> set rs. set (expand_relation di r))"
  by (simp add: expand_def set_expand_loop)

lemma distinct_expand: "distinct (expand di rs)"
  by (simp add: expand_def distinct_expand_loop)

lemma set_expand_relation:
  "set (expand_relation (dep_idx S) (s, pred, ob)) =
     {(s' - 1, map (\<lambda>idx. idx - 1) pred, o' - 1) | s' o'.
        s' \<in> insert s (conj_dependents S s) \<and> o' \<in> insert ob (conj_dependents S ob)}"
  unfolding expand_relation_def
  by (auto simp: set_equal_insts)

text \<open>
  Claim C4. Let \<open>relations\<close> be the relations the prepositional extractor has produced when
  the expansion starts. Its output is, without duplicates, exactly the union over these
  relations \<open>(s, pred, o)\<close> of the cross product of \<open>s\<close> and its \<^verbatim>\<open>conj:and\<close> dependents with
  \<open>o\<close> and its \<^verbatim>\<open>conj:and\<close> dependents, with the predicate \<open>pred\<close> and every index lowered by
  one. So the output contains that whole cross product for each relation, and a
  relation neither of whose endpoints governs a \<^verbatim>\<open>conj:and\<close> edge contributes itself
  with lowered indices and nothing else.
\<close>

theorem expansion_over_conj_and:
  assumes "nmod_relations S = Inr relations"
  shows "\<exists>out. extract_by_nmod S = Inr out \<and> distinct out
    \<and> set out =
        (\<Union>(s, pred, ob) \<in> set relations.
           {(s' - 1, map (\<lambda>idx. idx - 1) pred, o' - 1) | s' o'.
              s' \<in> insert s (conj_dependents S s) \<and> o' \<in> insert ob (conj_dependents S ob)})
    \<and> (\<forall>(s, pred, ob) \<in> set relations.
          (\<forall>s' \<in> insert s (conj_dependents S s). \<forall>o' \<in> insert ob (conj_dependents S ob).
             (s' - 1, map (\<lambda>idx. idx - 1) pred, o' - 1) \<in> set out)
          \<and> (conj_dependents S s = {} \<and> conj_dependents S ob = {} \<longrightarrow>
               set (expand_relation (dep_idx S) (s, pred, ob))
                 = {(s - 1, map (\<lambda>idx. idx - 1) pred, ob - 1)}))"
proof -
  let ?out = "expand (dep_idx S) relations"
  have out: "extract_by_nmod S = Inr ?out" using assms by (simp add: extract_by_nmod_def)
  have eq: "set ?out =
        (\<Union>(s, pred, ob) \<in> set relations.
           {(s' - 1, map (\<lambda>idx. idx - 1) pred, o' - 1) | s' o'.
              s' \<in> insert s (conj_dependents S s) \<and> o' \<in> insert ob (conj_dependents S ob)})"
    unfolding set_expand
    by (intro SUP_cong refl) (auto simp: set_expand_relation)
  have contains: "(s' - 1, map (\<lambda>idx. idx - 1) pred, o' - 1) \<in> set ?out"
    if "(s, pred, ob) \<in> set relations" "s' \<in> insert s (conj_dependents S s)"
      "o' \<in> insert ob (conj_dependents S ob)" for s pred ob s' o'
    unfolding eq using that by blast
  have single: "set (expand_relation (dep_idx S) (s, pred, ob))
                 = {(s - 1, map (\<lambda>idx. idx - 1) pred, ob - 1)}"
    if "conj_dependents S s = {}" "conj_dependents S ob = {}" for s pred ob
    unfolding set_expand_relation using that by auto
  have each: "case r of (s, pred, ob) \<Rightarrow>
          (\<forall>s' \<in> insert s (conj_dependents S s). \<forall>o' \<in> insert ob (conj_dependents S ob).
             (s' - 1, map (\<lambda>idx. idx - 1) pred, o' - 1) \<in> set ?out)
          \<and> (conj_dependents S s = {} \<and> conj_dependents S ob = {} \<longrightarrow>
               set (expand_relation (dep_idx S) (s, pred, ob))
                 = {(s - 1, map (\<lambda>idx. idx - 1) pred, ob - 1)})"
    if "r \<in> set relations" for r
  proof -
    obtain s pred ob where r: "r = (s, pred, ob)" by (cases r)
    show ?thesis
      unfolding r prod.case
      using contains [of s pred ob] single [of s ob pred] that [unfolded r] by blast
  qed
  show ?thesis
  proof (intro exI [of _ ?out] conjI ballI)
    show "extract_by_nmod S = Inr ?out" by (rule out)
    show "distinct ?out" by (rule distinct_expand)
    show "set ?out =
        (\<Union>(s, pred, ob) \<in> set relations.
           {(s' - 1, map (\<lambda>idx. idx - 1) pred, o' - 1) | s' o'.
              s' \<in> insert s (conj_dependents S s) \<and> o' \<in> insert ob (conj_dependents S ob)})"
      by (rule eq)
  qed (rule each)
qed

theorem expansion_over_conj_and_witness:
  "nmod_relations sat_sentence = Inr [(2, [6, 7], 9), (5, [6, 7], 9)]
   \<and> conj_dependents sat_sentence 2 = {5}
   \<and> conj_dependents sat_sentence 5 = {}
   \<and> conj_dependents sat_sentence 9 = {}
   \<and> (\<exists>out. extract_by_nmod sat_sentence = Inr out
        \<and> (1, [5, 6], 8) \<in> set out \<and> (4, [5, 6], 8) \<in> set out)"
proof -
  have h: "nmod_relations sat_sentence = Inr [(2, [6, 7], 9), (5, [6, 7], 9)]"
    by code_simp
  have c: "conj_dependents sat_sentence 2 = {5}" "conj_dependents sat_sentence 5 = {}"
    "conj_dependents sat_sentence 9 = {}"
    by (simp_all add: conj_dependents_def example_defs)
  from expansion_over_conj_and [OF h] show ?thesis
  proof (elim exE conjE)
    fix out
    assume out: "extract_by_nmod sat_sentence = Inr out"
      and all: "\<forall>(s, pred, ob) \<in> set [(2::int, [6::int, 7], 9::int), (5, [6, 7], 9)].
          (\<forall>s' \<in> insert s (conj_dependents sat_sentence s).
             \<forall>o' \<in> insert ob (conj_dependents sat_sentence ob).
               (s' - 1, map (\<lambda>idx. idx - 1) pred, o' - 1) \<in> set out)
          \<and> (conj_dependents sat_sentence s = {} \<and> conj_dependents sat_sentence ob = {} \<longrightarrow>
               set (expand_relation (dep_idx sat_sentence) (s, pred, ob))
                 = {(s - 1, map (\<lambda>idx. idx - 1) pred, ob - 1)})"
    from all have "(1, [5, 6], 8) \<in> set out" "(4, [5, 6], 8) \<in> set out"
      by (simp_all add: c)
    with out have "\<exists>out. extract_by_nmod sat_sentence = Inr out
        \<and> (1, [5, 6], 8) \<in> set out \<and> (4, [5, 6], 8) \<in> set out"
      by (intro exI [of _ out] conjI)
    with h c show ?thesis by (intro conjI)
  qed
qed

lemma join_two: "2 \<le> length ws \<Longrightarrow> set sep \<subseteq> set (join sep ws)"
proof -
  assume "2 \<le> length ws"
  then obtain w v rest where "ws = w # v # rest"
    by (cases ws; cases "tl ws") auto
  then show ?thesis by auto
qed

lemma join_not_excluded:
  assumes "sep = ''_'' \<or> sep = ''-''"
    and "(\<exists>w. ws = [w] \<and> w \<notin> set exclude) \<or> 2 \<le> length ws"
  shows "join sep ws \<noteq> ''of'' \<and> join sep ws \<noteq> ''for''"
proof (cases "2 \<le> length ws")
  case True
  then have "set sep \<subseteq> set (join sep ws)" by (rule join_two)
  with assms(1) have "CHR ''_'' \<in> set (join sep ws) \<or> CHR ''-'' \<in> set (join sep ws)" by auto
  then show ?thesis by auto
next
  case False
  with assms(2) obtain w where "ws = [w]" "w \<notin> set exclude" by auto
  then show ?thesis by (simp add: exclude_def)
qed

lemma nmod_edge_excluded:
  "dep e = ''nmod:of'' \<or> dep e = ''nmod:for'' \<Longrightarrow> nmod_edge S di e = Inr []"
  by (auto simp: nmod_edge_def exclude_def)

lemma find_pred_words:
  assumes "find_pred ts mwe X cs = Inr (Some p)" "X \<notin> set exclude"
  shows "\<exists>ws. words_at ts p = Inr ws \<and> ((\<exists>w. ws = [w] \<and> w \<notin> set exclude) \<or> 2 \<le> length ws)"
proof -
  from find_pred_Some [OF assms(1)] obtain c rest ws where p: "p = c # rest"
    and ws: "words_at ts p = Inr ws" "join ''_'' ws = X" by blast
  from ws(1) have len: "length ws = length p" by (rule words_at_length)
  show ?thesis
  proof (cases rest)
    case Nil
    with p len obtain w where "ws = [w]" by (cases ws) auto
    with ws assms(2) show ?thesis by auto
  next
    case (Cons a as)
    with p len have "2 \<le> length ws" by simp
    with ws show ?thesis by blast
  qed
qed

lemma nmod_edge_nonempty:
  assumes "nmod_edge S di e = Inr new" "new \<noteq> []"
  shows "\<exists>tt cases pred st.
      startswith (dep e) ''nmod:'' \<and> drop 5 (dep e) \<notin> set exclude \<and>
      getitem (tokens S) (target e - 1) = Inr tt \<and> is_noun tt \<and>
      di ''case'' (target e) = Some cases \<and>
      find_pred (tokens S) (di ''mwe'') (drop 5 (dep e)) cases = Inr (Some pred) \<and>
      getitem (tokens S) (source e - 1) = Inr st \<and>
      (if is_noun st then new = [(source e, pred, target e)]
       else phrase_relations di e pred [''acl'', ''nsubj''] = Inr new)"
  using assms unfolding nmod_edge_def
  by (auto split: if_splits sum.splits option.splits simp del: phrase_relations.simps)

lemma nmod_edge_pred_words:
  assumes "nmod_edge S di e = Inr new" "(s, p, ob) \<in> set new"
  shows "\<exists>ws. words_at (tokens S) p = Inr ws \<and>
           ((\<exists>w. ws = [w] \<and> w \<notin> set exclude) \<or> 2 \<le> length ws)"
proof -
  from assms(2) have "new \<noteq> []" by auto
  from nmod_edge_nonempty [OF assms(1) this] obtain cases pred st where
    nex: "drop 5 (dep e) \<notin> set exclude"
    and fp: "find_pred (tokens S) (di ''mwe'') (drop 5 (dep e)) cases = Inr (Some pred)"
    and st: "getitem (tokens S) (source e - 1) = Inr st"
    and new: "if is_noun st then new = [(source e, pred, target e)]
       else phrase_relations di e pred [''acl'', ''nsubj''] = Inr new"
    by blast
  from find_pred_words [OF fp nex] obtain ws where ws: "words_at (tokens S) pred = Inr ws"
    "(\<exists>w. ws = [w] \<and> w \<notin> set exclude) \<or> 2 \<le> length ws" by blast
  from fp have ne: "pred \<noteq> []" using find_pred_Some by blast
  show ?thesis
  proof (cases "is_noun st")
    case True
    with new assms(2) have "p = pred" by simp
    with ws show ?thesis by blast
  next
    case False
    with new have "phrase_relations di e pred [''acl'', ''nsubj''] = Inr new" by simp
    with assms(2) have "p = pred \<or> p = source e # pred"
      unfolding phrase_relations_acl_nsubj [OF ne] by (auto split: if_splits)
    then show ?thesis
    proof
      assume "p = pred" with ws show ?thesis by blast
    next
      assume "p = source e # pred"
      with st ws(1) have "words_at (tokens S) p = Inr (word st # ws)" by simp
      moreover from ws(1) ne have "1 \<le> length ws" 
        using words_at_length [of "tokens S" pred ws] by (cases pred) auto
      ultimately show ?thesis by auto
    qed
  qed
qed


lemma nmod_relations_pred_words:
  assumes "nmod_relations S = Inr relations" "(s, p, ob) \<in> set relations"
  shows "\<exists>ws. words_at (tokens S) p = Inr ws \<and>
           ((\<exists>w. ws = [w] \<and> w \<notin> set exclude) \<or> 2 \<le> length ws)"
proof -
  let ?P = "\<lambda>r. \<exists>ws. words_at (tokens S) (fst (snd r)) = Inr ws \<and>
           ((\<exists>w. ws = [w] \<and> w \<notin> set exclude) \<or> 2 \<le> length ws)"
  have "?P (s, p, ob)"
  proof (rule nmod_loop_invariant [where P = ?P, OF assms(1) [unfolded nmod_relations_def] _ _ assms(2)])
    fix r :: relation assume "r \<in> set []"
    then show "?P r" by simp
  next
    fix e new r
    assume "nmod_edge S (dep_idx S) e = Inr new" "r \<in> set new"
    then show "?P r" using nmod_edge_pred_words [of S "dep_idx S" e new "fst r" "fst (snd r)" "snd (snd r)"]
      by simp
  qed
  then show ?thesis by simp
qed

lemma in_extract_by_nmod:
  assumes "extract_by_nmod S = Inr out" "r \<in> set out"
  shows "\<exists>relations s pred ob s' o'. nmod_relations S = Inr relations \<and>
     (s, pred, ob) \<in> set relations \<and>
     s' \<in> insert s (conj_dependents S s) \<and> o' \<in> insert ob (conj_dependents S ob) \<and>
     r = (s' - 1, map (\<lambda>idx. idx - 1) pred, o' - 1)"
proof -
  from assms(1) obtain relations where rel: "nmod_relations S = Inr relations"
    and out: "out = expand (dep_idx S) relations"
    by (auto simp: extract_by_nmod_def split: sum.splits)
  from assms(2) out obtain r0 where r0: "r0 \<in> set relations"
    "r \<in> set (expand_relation (dep_idx S) r0)"
    by (auto simp: set_expand)
  obtain s pred ob where r0': "r0 = (s, pred, ob)" by (cases r0)
  from r0(2) obtain s' o' where "s' \<in> insert s (conj_dependents S s)"
    "o' \<in> insert ob (conj_dependents S ob)" "r = (s' - 1, map (\<lambda>idx. idx - 1) pred, o' - 1)"
    unfolding r0' set_expand_relation by blast
  with r0(1) rel show ?thesis unfolding r0' by blast
qed

lemma resolve_lowered:
  "resolve sep S (map (\<lambda>idx. idx - 1) p) =
     (case words_at (tokens S) p of Inl err \<Rightarrow> Inl err | Inr ws \<Rightarrow> Inr (join sep ws))"
  by (simp add: resolve_def tokens_at_words_at)

lemma nmod_loop_filter:
  "(\<And>e. e \<in> set es \<Longrightarrow> \<not> P e \<Longrightarrow> nmod_edge S di e = Inr []) \<Longrightarrow>
   nmod_loop S di (filter P es) acc = nmod_loop S di es acc"
  by (induction es arbitrary: acc) (simp_all cong: sum.case_cong)

lemma extract_by_nmod_filter:
  assumes "\<And>e. e \<in> set (edges S) \<Longrightarrow> \<not> P e \<Longrightarrow>
             dep e \<notin> set dep_labels \<and> (\<forall>di. nmod_edge S di e = Inr [])"
  shows "extract_by_nmod (S\<lparr>edges := filter P (edges S)\<rparr>) = extract_by_nmod S"
proof -
  let ?S' = "S\<lparr>edges := filter P (edges S)\<rparr>"
  have di: "dep_idx ?S' = dep_idx S"
    unfolding dep_idx_def using assms by (simp, intro foldl_index_edge_filter) blast
  have "nmod_relations ?S' = nmod_loop S (dep_idx S) (filter P (edges S)) []"
    by (simp add: nmod_relations_def di nmod_loop_tokens [of ?S' S])
  also have "\<dots> = nmod_relations S"
    unfolding nmod_relations_def using assms by (intro nmod_loop_filter) blast
  finally have "nmod_relations ?S' = nmod_relations S" .
  then show ?thesis unfolding extract_by_nmod_def di by simp
qed

text \<open>
  Claim C5. An \<^verbatim>\<open>nmod:of\<close> or \<^verbatim>\<open>nmod:for\<close> edge contributes no relation: the body of the
  loop returns the empty list for it, and the extractor returns the same result for the
  sentence with all such edges removed. And no predicate in the extractor's output
  resolves to the word \<^verbatim>\<open>of\<close> or \<^verbatim>\<open>for\<close>, whether its words are joined with \<^verbatim>\<open>_\<close> (as
  the extractor compares them with the label) or with \<^verbatim>\<open>-\<close> (as the command line prints
  them).
\<close>

theorem excluded_prepositions:
  "(dep e = ''nmod:of'' \<or> dep e = ''nmod:for'' \<longrightarrow> nmod_edge S di e = Inr [])
   \<and> extract_by_nmod (S\<lparr>edges := filter (\<lambda>e. dep e \<noteq> ''nmod:of'' \<and> dep e \<noteq> ''nmod:for'') (edges S)\<rparr>)
       = extract_by_nmod S
   \<and> (extract_by_nmod S = Inr out \<and> (s, pred, ob) \<in> set out \<and> (sep = ''_'' \<or> sep = ''-'') \<longrightarrow>
        (\<exists>w. resolve sep S pred = Inr w \<and> w \<noteq> ''of'' \<and> w \<noteq> ''for''))"
proof (intro conjI impI)
  show "nmod_edge S di e = Inr []" if "dep e = ''nmod:of'' \<or> dep e = ''nmod:for''"
    using that by (rule nmod_edge_excluded)
  show "extract_by_nmod (S\<lparr>edges := filter (\<lambda>e. dep e \<noteq> ''nmod:of'' \<and> dep e \<noteq> ''nmod:for'') (edges S)\<rparr>)
       = extract_by_nmod S"
  proof (rule extract_by_nmod_filter)
    fix e :: edge assume "\<not> (dep e \<noteq> ''nmod:of'' \<and> dep e \<noteq> ''nmod:for'')"
    then have d: "dep e = ''nmod:of'' \<or> dep e = ''nmod:for''" by blast
    then have "dep e \<notin> set dep_labels" by (auto simp: dep_labels_def)
    with d show "dep e \<notin> set dep_labels \<and> (\<forall>di. nmod_edge S di e = Inr [])"
      by (simp add: nmod_edge_excluded)
  qed
  show "\<exists>w. resolve sep S pred = Inr w \<and> w \<noteq> ''of'' \<and> w \<noteq> ''for''"
    if h: "extract_by_nmod S = Inr out \<and> (s, pred, ob) \<in> set out \<and> (sep = ''_'' \<or> sep = ''-'')"
  proof -
    from h in_extract_by_nmod [of S out "(s, pred, ob)"]
    obtain relations s0 p0 o0 where rel: "nmod_relations S = Inr relations"
      "(s0, p0, o0) \<in> set relations" and pred: "pred = map (\<lambda>idx. idx - 1) p0"
      by auto
    from nmod_relations_pred_words [OF rel] obtain ws where
      ws: "words_at (tokens S) p0 = Inr ws"
      "(\<exists>w. ws = [w] \<and> w \<notin> set exclude) \<or> 2 \<le> length ws" by blast
    from h have "sep = ''_'' \<or> sep = ''-''" by simp
    from join_not_excluded [OF this ws(2)] ws(1) pred show ?thesis
      by (simp add: resolve_lowered)
  qed
qed

theorem excluded_prepositions_witness:
  "dep (mk_edge ''nmod:of'' 5 8) = ''nmod:of''
   \<and> nmod_edge picture_sentence (dep_idx picture_sentence) (mk_edge ''nmod:of'' 5 8) = Inr []
   \<and> extract_by_nmod picture_sentence = Inr [(0, [1, 2], 4)]
   \<and> (0, [1, 2], 4) \<in> set [(0::int, [1::int, 2], 4::int)]
   \<and> resolve ''_'' picture_sentence [1, 2] = Inr ''looked_at''
   \<and> ''looked_at'' \<noteq> ''of'' \<and> ''looked_at'' \<noteq> ''for''"
proof -
  have h1: "dep (mk_edge ''nmod:of'' 5 8) = ''nmod:of''" by (simp add: mk_edge_def)
  have h2: "extract_by_nmod picture_sentence = Inr [(0, [1, 2], 4)]" by code_simp
  have r: "resolve ''_'' picture_sentence [1, 2] = Inr ''looked_at''" by code_simp
  from excluded_prepositions [of "mk_edge ''nmod:of'' 5 8" picture_sentence
      "dep_idx picture_sentence" "[(0, [1, 2], 4)]" 0 "[1, 2]" 4 "''_''"] h1 h2 r
  show ?thesis by simp
qed

section \<open>The claim about the output of the pipeline\<close>

lemma candidates_position:
  assumes "edges_in_range S"
  shows "s \<in> subject_candidates S p \<Longrightarrow> position S s \<and> position S p"
    and "ob \<in> object_candidates S p \<Longrightarrow> position S ob \<and> position S p"
  using assms
  by (auto simp: subject_candidates_def object_candidates_def edges_in_range_iff)

lemma extract_by_subj_obj_valid:
  assumes "edges_in_range S" "(s, pred, ob) \<in> set (extract_by_subj_obj S)"
  shows "valid_index S s \<and> (\<forall>i \<in> set pred. valid_index S i) \<and> valid_index S ob"
proof -
  from assms(2) obtain s0 p0 o0 where "s = s0 - 1" "pred = [p0 - 1]" "ob = o0 - 1"
    "s0 \<in> subject_candidates S p0" "o0 \<in> object_candidates S p0"
    unfolding in_extract_by_subj_obj by auto
  with candidates_position [OF assms(1)] show ?thesis
    by (auto simp: valid_index_position)
qed

lemma conj_dependents_position:
  "edges_in_range S \<Longrightarrow> v \<in> conj_dependents S t \<Longrightarrow> position S v"
  by (auto simp: conj_dependents_def edges_in_range_iff)

lemma nmod_edge_positions:
  assumes "edges_in_range S" "e \<in> set (edges S)"
    "nmod_edge S (dep_idx S) e = Inr new" "(s, p, ob) \<in> set new"
  shows "position S s \<and> (\<forall>i \<in> set p. position S i) \<and> position S ob"
proof -
  from assms(1,2) have se: "position S (source e)" and te: "position S (target e)"
    by (auto simp: edges_in_range_iff)
  from assms(4) have "new \<noteq> []" by auto
  from nmod_edge_nonempty [OF assms(3) this] obtain cases pred st where
    cs: "dep_idx S ''case'' (target e) = Some cases"
    and fp: "find_pred (tokens S) (dep_idx S ''mwe'') (drop 5 (dep e)) cases = Inr (Some pred)"
    and new: "if is_noun st then new = [(source e, pred, target e)]
       else phrase_relations (dep_idx S) e pred [''acl'', ''nsubj''] = Inr new"
    by blast
  from find_pred_Some [OF fp] obtain c rest where pred: "pred = c # rest" "c \<in> set cases"
    "rest = [] \<or> dep_idx S ''mwe'' c = Some rest" by blast
  have "position S c"
    using dep_idx_in_range [OF assms(1) _ cs pred(2)] by (simp add: dep_labels_def)
  moreover have "position S i" if "i \<in> set rest" for i
    using pred(3) that dep_idx_in_range [OF assms(1), of "''mwe''" c rest i]
    by (auto simp: dep_labels_def)
  ultimately have pp: "\<forall>i \<in> set pred. position S i" by (auto simp: pred(1))
  show ?thesis
  proof (cases "is_noun st")
    case True
    with new assms(4) have "s = source e" "p = pred" "ob = target e" by simp_all
    with se te pp show ?thesis by simp
  next
    case False
    with new have ph: "phrase_relations (dep_idx S) e pred [''acl'', ''nsubj''] = Inr new" by simp
    have ne: "pred \<noteq> []" by (simp add: pred(1))
    from ph assms(4) have p: "p = pred \<or> p = source e # pred" and ob: "ob = target e"
      and s: "(\<exists>srcs. dep_idx S ''acl'' (source e) = Some srcs \<and> s \<in> set srcs) \<or>
              (\<exists>srcs. dep_idx S ''nsubj'' (source e) = Some srcs \<and> s \<in> set srcs)"
      unfolding phrase_relations_acl_nsubj [OF ne] by (auto split: if_splits option.splits)
    from s have "position S s"
      using dep_idx_in_range [OF assms(1), of "''acl''" "source e" _ s]
        dep_idx_in_range [OF assms(1), of "''nsubj''" "source e" _ s]
      by (auto simp: dep_labels_def)
    with p ob se te pp show ?thesis by auto
  qed
qed

lemma nmod_relations_positions:
  assumes "edges_in_range S" "nmod_relations S = Inr relations" "(s, p, ob) \<in> set relations"
  shows "position S s \<and> (\<forall>i \<in> set p. position S i) \<and> position S ob"
proof -
  let ?P = "\<lambda>r. position S (fst r) \<and> (\<forall>i \<in> set (fst (snd r)). position S i) \<and>
                 position S (snd (snd r))"
  have "?P (s, p, ob)"
  proof (rule nmod_loop_invariant [where P = ?P, OF assms(2) [unfolded nmod_relations_def] _ _ assms(3)])
    fix r :: relation assume "r \<in> set []"
    then show "?P r" by simp
  next
    fix e new r
    assume "e \<in> set (edges S)" "nmod_edge S (dep_idx S) e = Inr new" "r \<in> set new"
    then show "?P r"
      using nmod_edge_positions [OF assms(1), of e new "fst r" "fst (snd r)" "snd (snd r)"]
      by simp
  qed
  then show ?thesis by simp
qed

lemma extract_by_nmod_valid:
  assumes "edges_in_range S" "extract_by_nmod S = Inr out" "(s, pred, ob) \<in> set out"
  shows "valid_index S s \<and> (\<forall>i \<in> set pred. valid_index S i) \<and> valid_index S ob"
proof -
  from in_extract_by_nmod [OF assms(2,3)]
  obtain relations s0 p0 o0 s' o' where rel: "nmod_relations S = Inr relations"
    "(s0, p0, o0) \<in> set relations"
    and s': "s' \<in> insert s0 (conj_dependents S s0)" and o': "o' \<in> insert o0 (conj_dependents S o0)"
    and eq0: "(s, pred, ob) = (s' - 1, map (\<lambda>idx. idx - 1) p0, o' - 1)"
    by blast
  from eq0 have eq: "s = s' - 1" "pred = map (\<lambda>idx. idx - 1) p0" "ob = o' - 1" by simp_all
  from nmod_relations_positions [OF assms(1) rel]
  have pos: "position S s0" "\<forall>i \<in> set p0. position S i" "position S o0" by simp_all
  from s' pos(1) have "position S s'" using conj_dependents_position [OF assms(1)] by auto
  moreover from o' pos(3) have "position S o'"
    using conj_dependents_position [OF assms(1)] by auto
  ultimately show ?thesis using pos(2) by (auto simp: eq valid_index_position)
qed

lemma substitutes_valid:
  assumes "edges_in_range S" "valid_index S t" "t' \<in> substitutes S t"
  shows "valid_index S t'"
proof (cases "of_dependents S t = []")
  case True
  with assms show ?thesis by (simp add: substitutes_def)
next
  case False
  with assms(3) obtain e where "e \<in> set (edges S)" "t' = target e - 1"
    by (auto simp: substitutes_def of_dependents_def)
  with assms(1) show ?thesis by (simp add: edges_in_range_iff valid_index_position)
qed

text \<open>
  Claim C8. For a sentence whose edges all join positions \<open>1..n\<close> of its \<open>n\<close> tokens, the
  pipeline returns the \<open>n\<close> words and a list of relations, and in every relation the
  subject index, each index of the predicate and the object index lie in \<open>0..n-1\<close>.
\<close>

theorem output_indices_valid:
  assumes "edges_in_range S"
  shows "\<exists>ws relations. extract_sentence S = Inr (ws, relations)
    \<and> length ws = length (tokens S)
    \<and> (\<forall>(s, pred, ob) \<in> set relations.
          valid_index S s \<and> (\<forall>i \<in> set pred. valid_index S i) \<and> valid_index S ob)"
proof -
  from extract_by_nmod_total [OF assms] obtain out where out: "extract_by_nmod S = Inr out" ..
  let ?R = "extract_by_subj_obj S @ out"
  have ex: "extract_sentence S = Inr (map word (tokens S), replace_by_of S ?R)"
    by (simp add: extract_sentence_def out)
  have valid: "valid_index S s \<and> (\<forall>i \<in> set pred. valid_index S i) \<and> valid_index S ob"
    if "(s, pred, ob) \<in> set (replace_by_of S ?R)" for s pred ob
  proof -
    from that obtain s0 o0 where r0: "(s0, pred, o0) \<in> set ?R"
      and sub: "s \<in> substitutes S s0" "ob \<in> substitutes S o0"
      unfolding in_replace_by_of by auto
    from r0 have "valid_index S s0 \<and> (\<forall>i \<in> set pred. valid_index S i) \<and> valid_index S o0"
      using extract_by_subj_obj_valid [OF assms, of s0 pred o0]
        extract_by_nmod_valid [OF assms out, of s0 pred o0] by auto
    with sub show ?thesis using substitutes_valid [OF assms] by blast
  qed
  show ?thesis
  proof (intro exI conjI)
    show "extract_sentence S = Inr (map word (tokens S), replace_by_of S ?R)" by (rule ex)
    show "length (map word (tokens S)) = length (tokens S)" by simp
    show "\<forall>(s, pred, ob) \<in> set (replace_by_of S ?R).
          valid_index S s \<and> (\<forall>i \<in> set pred. valid_index S i) \<and> valid_index S ob"
      using valid by blast
  qed
qed

theorem output_indices_valid_witness:
  "edges_in_range sat_sentence
   \<and> extract_sentence sat_sentence =
       Inr ([''The'', ''cat'', ''and'', ''the'', ''dog'', ''sat'', ''on'', ''the'', ''mat''],
            [(1, [5, 6], 8), (4, [5, 6], 8)])
   \<and> valid_index sat_sentence 1 \<and> valid_index sat_sentence 5 \<and> valid_index sat_sentence 6
   \<and> valid_index sat_sentence 8 \<and> valid_index sat_sentence 4"
proof -
  have h: "edges_in_range sat_sentence" by (simp add: edges_in_range_def example_defs)
  have ex: "extract_sentence sat_sentence =
       Inr ([''The'', ''cat'', ''and'', ''the'', ''dog'', ''sat'', ''on'', ''the'', ''mat''],
            [(1, [5, 6], 8), (4, [5, 6], 8)])" by code_simp
  from output_indices_valid [OF h] h ex show ?thesis by simp
qed

section \<open>The pipeline on the example sentences\<close>

lemma cat_sentence_result:
  "extract_sentence cat_sentence =
     Inr ([''The'', ''cat'', ''chased'', ''the'', ''mouse'', ''and'', ''slept'', ''.''],
          [(1, [2], 4)])"
  by code_simp

lemma group_sentence_result:
  "extract_sentence group_sentence =
     Inr ([''A'', ''group'', ''of'', ''people'', ''chased'', ''mice''], [(3, [4], 5)])"
  by code_simp

lemma park_sentence_result:
  "extract_sentence park_sentence =
     Inr ([''The'', ''park'', ''in'', ''front'', ''of'', ''the'', ''lake''], [(1, [2, 3, 4], 6)])"
  by code_simp

lemma door_sentence_result:
  "extract_sentence door_sentence =
     Inr ([''The'', ''cat'', ''sat'', ''on'', ''the'', ''mat'', ''in'', ''front'', ''of'',
           ''the'', ''door''], [(1, [2, 3], 5)])"
  by code_simp

text \<open>
  The expansion over \<^verbatim>\<open>conj:and\<close> belongs to the prepositional extractor only: a verb
  relation is not expanded, so with a single \<^verbatim>\<open>nsubj\<close> edge the coordinated subject gets
  no relation.
\<close>

lemma cats_sentence_result:
  "extract_sentence cats_sentence =
     Inr ([''Cats'', ''and'', ''dogs'', ''chase'', ''mice'', ''.''], [(0, [3], 4)])"
  by code_simp

end
